theory Spec2Isabelle
  imports Main "HOL-Library.Word"
begin

unbundle bit_operations_syntax

section \<open>The MD5 digest used by \<open>calculate_file_hash\<close>\<close>

text \<open>
  \<open>core.py\<close> identifies file contents by \<open>hashlib.md5(...).hexdigest()\<close>. The digest
  is the function of RFC 1321 on the bytes of the file: 32-bit quantities are natural
  numbers below \<open>2 ^ 32\<close> with the wrap-around written out, a message is padded to a
  multiple of 64 bytes, split into little-endian words and folded block by block into
  the four-word state, and the result is printed as 32 lowercase hexadecimal characters.
\<close>

type_synonym byte = "8 word"
type_synonym md5_state = "nat \<times> nat \<times> nat \<times> nat"

definition md5_s :: "nat list" where
  "md5_s =
    [     7, 12, 17, 22, 7, 12, 17, 22, 7, 12, 17, 22, 7, 12, 17, 22,
     5, 9, 14, 20, 5, 9, 14, 20, 5, 9, 14, 20, 5, 9, 14, 20,
     4, 11, 16, 23, 4, 11, 16, 23, 4, 11, 16, 23, 4, 11, 16, 23,
     6, 10, 15, 21, 6, 10, 15, 21, 6, 10, 15, 21, 6, 10, 15, 21]"

definition md5_K :: "nat list" where
  "md5_K =
    [     0xd76aa478, 0xe8c7b756, 0x242070db, 0xc1bdceee, 0xf57c0faf, 0x4787c62a, 0xa8304613, 0xfd469501,
     0x698098d8, 0x8b44f7af, 0xffff5bb1, 0x895cd7be, 0x6b901122, 0xfd987193, 0xa679438e, 0x49b40821,
     0xf61e2562, 0xc040b340, 0x265e5a51, 0xe9b6c7aa, 0xd62f105d, 0x02441453, 0xd8a1e681, 0xe7d3fbc8,
     0x21e1cde6, 0xc33707d6, 0xf4d50d87, 0x455a14ed, 0xa9e3e905, 0xfcefa3f8, 0x676f02d9, 0x8d2a4c8a,
     0xfffa3942, 0x8771f681, 0x6d9d6122, 0xfde5380c, 0xa4beea44, 0x4bdecfa9, 0xf6bb4b60, 0xbebfbc70,
     0x289b7ec6, 0xeaa127fa, 0xd4ef3085, 0x04881d05, 0xd9d4d039, 0xe6db99e5, 0x1fa27cf8, 0xc4ac5665,
     0xf4292244, 0x432aff97, 0xab9423a7, 0xfc93a039, 0x655b59c3, 0x8f0ccc92, 0xffeff47d, 0x85845dd1,
     0x6fa87e4f, 0xfe2ce6e0, 0xa3014314, 0x4e0811a1, 0xf7537e82, 0xbd3af235, 0x2ad7d2bb, 0xeb86d391]"

definition add32 :: "nat \<Rightarrow> nat \<Rightarrow> nat" where
  "add32 x y = (x + y) mod 2 ^ 32"

definition not32 :: "nat \<Rightarrow> nat" where
  "not32 x = x XOR 0xffffffff"

definition rotl32 :: "nat \<Rightarrow> nat \<Rightarrow> nat" where
  "rotl32 n x = (x * 2 ^ n) mod 2 ^ 32 + x div 2 ^ (32 - n)"

definition md5_F :: "nat \<Rightarrow> nat \<Rightarrow> nat \<Rightarrow> nat \<Rightarrow> nat" where
  "md5_F i b c d =
     (if i < 16 then (b AND c) OR (not32 b AND d)
      else if i < 32 then (d AND b) OR (not32 d AND c)
      else if i < 48 then b XOR c XOR d
      else c XOR (b OR not32 d))"

definition md5_g :: "nat \<Rightarrow> nat" where
  "md5_g i =
     (if i < 16 then i
      else if i < 32 then (5 * i + 1) mod 16
      else if i < 48 then (3 * i + 5) mod 16
      else (7 * i) mod 16)"

fun md5_step :: "nat list \<Rightarrow> nat \<Rightarrow> md5_state \<Rightarrow> md5_state" where
  "md5_step m i (a, b, c, d) =
     (d,
      add32 b (rotl32 (md5_s ! i)
        (add32 (add32 (add32 a (md5_F i b c d)) (md5_K ! i)) (m ! md5_g i))),
      b, c)"

fun md5_rounds :: "nat list \<Rightarrow> nat list \<Rightarrow> md5_state \<Rightarrow> md5_state" where
  "md5_rounds m [] st = st"
| "md5_rounds m (i # is) st = md5_rounds m is (md5_step m i st)"

fun md5_block :: "md5_state \<Rightarrow> nat list \<Rightarrow> md5_state" where
  "md5_block (a0, b0, c0, d0) m =
     (case md5_rounds m [0..<64] (a0, b0, c0, d0) of
        (a, b, c, d) \<Rightarrow> (add32 a0 a, add32 b0 b, add32 c0 c, add32 d0 d))"

fun md5_words :: "byte list \<Rightarrow> nat list" where
  "md5_words (b0 # b1 # b2 # b3 # bs) =
     (unat b0 + 256 * unat b1 + 65536 * unat b2 + 16777216 * unat b3) # md5_words bs"
| "md5_words _ = []"

definition le_bytes4 :: "nat \<Rightarrow> byte list" where
  "le_bytes4 w =
     [of_nat (w mod 256), of_nat (w div 256 mod 256),
      of_nat (w div 65536 mod 256), of_nat (w div 16777216 mod 256)]"

definition md5_pad :: "byte list \<Rightarrow> byte list" where
  "md5_pad bs =
     bs @ [0x80] @ replicate ((119 - length bs mod 64) mod 64) 0
        @ le_bytes4 ((8 * length bs) mod 2 ^ 32)
        @ le_bytes4 ((8 * length bs) div 2 ^ 32 mod 2 ^ 32)"

definition md5_init :: md5_state where
  "md5_init = (0x67452301, 0xefcdab89, 0x98badcfe, 0x10325476)"

text \<open>
  \<open>chunks n xs\<close> cuts \<open>xs\<close> into pieces of \<open>n\<close> elements, the last one possibly
  shorter; it is also what the loop \<open>iter(lambda: f.read(chunk_size), b'')\<close> of
  \<open>calculate_file_hash\<close> reads: \<open>read(0)\<close> returns \<open>b''\<close> at once, and so does a read
  at the end of the file.
\<close>

function chunks :: "nat \<Rightarrow> 'a list \<Rightarrow> 'a list list" where
  "chunks n xs = (if n = 0 \<or> xs = [] then [] else take n xs # chunks n (drop n xs))"
  by pat_completeness auto
termination
  by (relation "measure (\<lambda>(n, xs). length xs)") auto

declare chunks.simps [simp del]

definition hex_digit :: "nat \<Rightarrow> char" where
  "hex_digit n = ''0123456789abcdef'' ! n"

definition hex_byte :: "byte \<Rightarrow> string" where
  "hex_byte x = [hex_digit (unat x div 16), hex_digit (unat x mod 16)]"

definition md5_hexdigest :: "byte list \<Rightarrow> string" where
  "md5_hexdigest bs =
     (case fold (\<lambda>m st. md5_block st m) (chunks 16 (md5_words (md5_pad bs))) md5_init of
        (a, b, c, d) \<Rightarrow> concat (map hex_byte (concat (map le_bytes4 [a, b, c, d]))))"

text \<open>
  The \<open>hashlib\<close> object: \<open>update\<close> appends to the message seen so far and
  \<open>hexdigest\<close> is the digest of that message.
\<close>

definition md5_update :: "byte list \<Rightarrow> byte list \<Rightarrow> byte list" where
  "md5_update chunk msg = msg @ chunk"


section \<open>The file system as the code sees it\<close>

text \<open>
  A path is a string. The directory entry it denotes is its location, \<open>name fs p\<close>: the
  current directory, \<open>..\<close> and the case of the letters are resolved there, so that two
  strings may denote one entry; \<open>via fs p\<close> are the symbolic links to directories that the
  path goes through on its way, and the path denotes its entry only as long as they are
  all there. An entry is a file, a symbolic link to a path, or a symbolic link to a
  directory. A file has its bytes and two facts the code can observe through \<open>OSError\<close>:
  whether \<open>Path.stat()\<close> succeeds on it and whether \<open>open(path, 'rb')\<close> and the reads
  succeed. \<open>stat\<close> and \<open>open\<close> follow symbolic links, up to \<open>max_symlinks\<close> of them, and
  \<open>open\<close> fails on a directory; \<open>Path.unlink()\<close> removes the entry that the path
  denotes, a link itself and not its target, and fails on the entries in \<open>locked\<close>. All
  three fail with \<open>OSError\<close> only (the paths are valid file names). Hard links need
  nothing of their own: two entries for one file behave, for \<open>stat\<close>, \<open>open\<close> and
  \<open>unlink\<close>, as two files with the same bytes. A directory met as a path behaves as an
  entry that can be stat-ed, cannot be opened and is locked.

  A directory, as \<open>os.walk\<close> enumerates it, lists the paths \<open>Path(root) / filename\<close>
  of its non-directory entries and then its subdirectories, both in listing order; the
  flag tells whether the directory can be listed. \<open>dirs\<close> maps the strings that name a
  directory to it; an entry that has been removed is no longer enumerated.
\<close>

type_synonym path = string
type_synonym loc = string
type_synonym digest = string

datatype exn = OSError | IndexError | ValueError string

record fnode =
  content :: "byte list"
  statable :: bool
  readable :: bool

datatype entry = File fnode | Symlink path | DirLink fnode

datatype dtree = Dir bool "path list" "dtree list"

record fsys =
  name :: "path \<Rightarrow> loc"
  via :: "path \<Rightarrow> loc list"
  files :: "loc \<rightharpoonup> entry"
  locked :: "loc \<Rightarrow> bool"
  dirs :: "path \<rightharpoonup> dtree"

text \<open>The links to directories that the path goes through are all there.\<close>

definition present :: "fsys \<Rightarrow> path \<Rightarrow> bool" where
  "present fs p =
     list_all (\<lambda>l. case files fs l of Some (DirLink d) \<Rightarrow> True | _ \<Rightarrow> False) (via fs p)"

text \<open>The entry that a path denotes, if there is one.\<close>

definition entry_of :: "fsys \<Rightarrow> path \<Rightarrow> entry option" where
  "entry_of fs p = (if present fs p then files fs (name fs p) else None)"

text \<open>
  What \<open>stat\<close> and \<open>open\<close> find behind a path, following at most \<open>n\<close> symbolic links:
  \<open>None\<close> when an entry on the way is missing (a dangling link) or the links do not end
  (\<open>ELOOP\<close>); behind a link to a directory, the directory, which cannot be opened.
\<close>

fun resolve :: "(path \<rightharpoonup> entry) \<Rightarrow> nat \<Rightarrow> path \<Rightarrow> fnode option" where
  "resolve eo 0 p =
     (case eo p of
        Some (File f) \<Rightarrow> Some f
      | Some (DirLink d) \<Rightarrow> Some (d\<lparr>readable := False\<rparr>)
      | _ \<Rightarrow> None)"
| "resolve eo (Suc n) p =
     (case eo p of
        None \<Rightarrow> None
      | Some (File f) \<Rightarrow> Some f
      | Some (DirLink d) \<Rightarrow> Some (d\<lparr>readable := False\<rparr>)
      | Some (Symlink q) \<Rightarrow> resolve eo n q)"

definition max_symlinks :: nat where
  "max_symlinks = 40"

definition lookup :: "fsys \<Rightarrow> path \<Rightarrow> fnode option" where
  "lookup fs p = resolve (entry_of fs) max_symlinks p"

text \<open>\<open>filepath.stat().st_size\<close>; \<open>None\<close> stands for the \<open>OSError\<close>.\<close>

definition stat_size :: "fsys \<Rightarrow> path \<Rightarrow> nat option" where
  "stat_size fs p =
     (case lookup fs p of
        None \<Rightarrow> None
      | Some f \<Rightarrow> if statable f then Some (length (content f)) else None)"

text \<open>The bytes behind \<open>open(filepath, 'rb')\<close>; \<open>None\<close> stands for the \<open>OSError\<close>.\<close>

definition open_rb :: "fsys \<Rightarrow> path \<Rightarrow> byte list option" where
  "open_rb fs p =
     (case lookup fs p of
        None \<Rightarrow> None
      | Some f \<Rightarrow> if readable f then Some (content f) else None)"

text \<open>\<open>filepath.unlink()\<close>: the file system without the entry, or \<open>None\<close> for the \<open>OSError\<close>.\<close>

definition unlink :: "fsys \<Rightarrow> path \<Rightarrow> fsys option" where
  "unlink fs p =
     (case entry_of fs p of
        None \<Rightarrow> None
      | Some e \<Rightarrow>
          if locked fs (name fs p) then None
          else Some (fs\<lparr>files := (files fs)(name fs p := None)\<rparr>))"

text \<open>
  \<open>os.walk(directory)\<close>, top-down, reduced to what the loop uses: for every directory
  visited, the paths of its files (a symbolic link to a file, dangling or not, is listed
  among the files). A directory that cannot be listed yields nothing, and so does a
  \<open>directory\<close> that names no directory (\<open>os.walk\<close> swallows the error of the listing).
\<close>

fun walk_tree :: "fsys \<Rightarrow> dtree \<Rightarrow> path list list" where
  "walk_tree fs (Dir listable fnames subs) =
     (if listable
      then filter (\<lambda>p. entry_of fs p \<noteq> None) fnames # concat (map (walk_tree fs) subs)
      else [])"

definition os_walk :: "fsys \<Rightarrow> path \<Rightarrow> path list list" where
  "os_walk fs directory =
     (case dirs fs directory of None \<Rightarrow> [] | Some t \<Rightarrow> walk_tree fs t)"

text \<open>\<open>os.path.isdir(directory)\<close>: the directory exists, whether or not it can be listed.\<close>

definition isdir :: "fsys \<Rightarrow> path \<Rightarrow> bool" where
  "isdir fs directory = (dirs fs directory \<noteq> None)"

section \<open>\<open>core.py\<close>\<close>

subsection \<open>\<open>calculate_file_hash\<close>\<close>

definition calculate_file_hash :: "fsys \<Rightarrow> path \<Rightarrow> nat \<Rightarrow> digest option" where
  "calculate_file_hash fs filepath chunk_size =
     (case open_rb fs filepath of
        None \<Rightarrow> None
      | Some bs \<Rightarrow> Some (md5_hexdigest (fold md5_update (chunks chunk_size bs) [])))"

subsection \<open>\<open>find_duplicates\<close>\<close>

text \<open>
  \<open>duplicates\<close> is a \<open>defaultdict(list)\<close>: an insertion-ordered dictionary, here the
  list of its items. \<open>calls\<close> records the invocations of \<open>progress_callback\<close>, oldest
  first.
\<close>

type_synonym dupset = "(digest \<times> path list) list"

record scan_state =
  duplicates :: dupset
  total_files :: int
  processed_files :: int
  calls :: "(int \<times> int) list"

text \<open>\<open>duplicates[file_hash].append(filepath)\<close>\<close>

fun dd_append :: "dupset \<Rightarrow> digest \<Rightarrow> path \<Rightarrow> dupset" where
  "dd_append [] h p = [(h, [p])]"
| "dd_append ((k, ps) # rest) h p =
     (if k = h then (k, ps @ [p]) # rest else (k, ps) # dd_append rest h p)"

text \<open>The body of the inner loop, for one \<open>filepath\<close>.\<close>

definition scan_file :: "fsys \<Rightarrow> int \<Rightarrow> bool \<Rightarrow> path \<Rightarrow> scan_state \<Rightarrow> scan_state" where
  "scan_file fs min_size progress_callback filepath st =
     (let st1 = st\<lparr>total_files := total_files st + 1\<rparr> in
      case stat_size fs filepath of
        None \<Rightarrow> st1
      | Some file_size \<Rightarrow>
          if int file_size < min_size then st1
          else
            let st2 =
              (case calculate_file_hash fs filepath 8192 of
                 None \<Rightarrow> st1
               | Some file_hash \<Rightarrow>
                   if file_hash \<noteq> []
                   then st1\<lparr>duplicates := dd_append (duplicates st1) file_hash filepath,
                            processed_files := processed_files st1 + 1\<rparr>
                   else st1)
            in if progress_callback \<and> processed_files st2 mod 100 = 0
               then st2\<lparr>calls := calls st2 @ [(processed_files st2, total_files st2)]\<rparr>
               else st2)"

definition scan_init :: scan_state where
  "scan_init = \<lparr>duplicates = [], total_files = 0, processed_files = 0, calls = []\<rparr>"

text \<open>
  The directories the outer loop visits: all of the walk, or only its first item when
  \<open>recursive\<close> is false (\<open>break\<close> after the first iteration).
\<close>

definition visited :: "fsys \<Rightarrow> path \<Rightarrow> bool \<Rightarrow> path list list" where
  "visited fs directory recursive =
     (if recursive then os_walk fs directory else take 1 (os_walk fs directory))"

definition scan :: "fsys \<Rightarrow> path \<Rightarrow> bool \<Rightarrow> int \<Rightarrow> bool \<Rightarrow> scan_state" where
  "scan fs directory recursive min_size progress_callback =
     fold (\<lambda>fnames st. fold (scan_file fs min_size progress_callback) fnames st)
       (visited fs directory recursive) scan_init"

text \<open>
  The result and, beside it, the invocations of the callback (\<open>progress_callback\<close> tells
  whether one was supplied).
\<close>

definition find_duplicates ::
    "fsys \<Rightarrow> path \<Rightarrow> bool \<Rightarrow> int \<Rightarrow> bool \<Rightarrow> dupset \<times> (int \<times> int) list" where
  "find_duplicates fs directory recursive min_size progress_callback =
     (let st = scan fs directory recursive min_size progress_callback
      in (filter (\<lambda>(h, paths). length paths > 1) (duplicates st), calls st))"

subsection \<open>\<open>analyze_duplicates\<close>\<close>

text \<open>
  \<open>filepaths[0]\<close> raises \<open>IndexError\<close> on an empty list; the \<open>try\<close> catches only
  \<open>OSError\<close>, so the \<open>IndexError\<close> leaves the function.
\<close>

fun analyze_loop :: "fsys \<Rightarrow> dupset \<Rightarrow> int \<Rightarrow> exn + int" where
  "analyze_loop fs [] total_space = Inr total_space"
| "analyze_loop fs ((file_hash, filepaths) # rest) total_space =
     (case filepaths of
        [] \<Rightarrow> Inl IndexError
      | p0 # _ \<Rightarrow>
          (case stat_size fs p0 of
             None \<Rightarrow> analyze_loop fs rest total_space
           | Some file_size \<Rightarrow>
               analyze_loop fs rest
                 (total_space + int file_size * (int (length filepaths) - 1))))"

definition analyze_duplicates :: "fsys \<Rightarrow> dupset \<Rightarrow> exn + int \<times> int" where
  "analyze_duplicates fs dups =
     (case analyze_loop fs dups 0 of
        Inl e \<Rightarrow> Inl e
      | Inr total_space \<Rightarrow> Inr (int (length dups), total_space))"

subsection \<open>\<open>delete_duplicates\<close>\<close>

text \<open>
  The state of the deletion: the file system, the two counters, and the \<open>unlink\<close> calls
  made so far with their outcome (a failed one is what the \<open>print\<close> reports).
\<close>

record del_state =
  dfs :: fsys
  deleted_count :: int
  freed_space :: int
  attempts :: "(path \<times> bool) list"

text \<open>The inner loop over \<open>filepaths[1:]\<close>: a failed \<open>unlink\<close> is reported and the loop goes on.\<close>

fun delete_paths :: "nat \<Rightarrow> path list \<Rightarrow> del_state \<Rightarrow> del_state" where
  "delete_paths file_size [] st = st"
| "delete_paths file_size (filepath # rest) st =
     (case unlink (dfs st) filepath of
        Some fs' \<Rightarrow>
          delete_paths file_size rest
            (st\<lparr>dfs := fs', deleted_count := deleted_count st + 1,
                freed_space := freed_space st + int file_size,
                attempts := attempts st @ [(filepath, True)]\<rparr>)
      | None \<Rightarrow>
          delete_paths file_size rest (st\<lparr>attempts := attempts st @ [(filepath, False)]\<rparr>))"

text \<open>The body of the outer \<open>try\<close>, for one group.\<close>

definition delete_group :: "path list \<Rightarrow> del_state \<Rightarrow> exn + del_state" where
  "delete_group filepaths st =
     (case filepaths of
        [] \<Rightarrow> Inl IndexError
      | p0 # others \<Rightarrow>
          (case stat_size (dfs st) p0 of
             None \<Rightarrow> Inl OSError
           | Some file_size \<Rightarrow> Inr (delete_paths file_size others st)))"

text \<open>The outer loop: \<open>except (OSError, IndexError): continue\<close>; anything else would propagate.\<close>

fun delete_loop :: "dupset \<Rightarrow> del_state \<Rightarrow> exn + del_state" where
  "delete_loop [] st = Inr st"
| "delete_loop ((file_hash, filepaths) # rest) st =
     (case delete_group filepaths st of
        Inr st' \<Rightarrow> delete_loop rest st'
      | Inl OSError \<Rightarrow> delete_loop rest st
      | Inl IndexError \<Rightarrow> delete_loop rest st
      | Inl (ValueError msg) \<Rightarrow> Inl (ValueError msg))"

definition delete_duplicates :: "fsys \<Rightarrow> dupset \<Rightarrow> exn + del_state" where
  "delete_duplicates fs dups =
     delete_loop dups \<lparr>dfs = fs, deleted_count = 0, freed_space = 0, attempts = []\<rparr>"

section \<open>\<open>cli.py\<close>: validation before the scan\<close>

record args =
  directory :: path
  recursive :: bool
  min_size :: int
  dry_run :: bool
  delete :: bool
  quiet :: bool

definition validate_args :: "fsys \<Rightarrow> args \<Rightarrow> exn + unit" where
  "validate_args fs a =
     (if \<not> isdir fs (directory a)
        then Inl (ValueError ([CHR 0x27] @ directory a @ [CHR 0x27] @ '' is not a valid directory''))
      else if delete a \<and> dry_run a
        then Inl (ValueError ''Cannot use both --delete and --dry-run'')
      else if min_size a < 0
        then Inl (ValueError ''Minimum size must be non-negative'')
      else Inr ())"

text \<open>
  \<open>main\<close> up to the scan: a \<open>ValueError\<close> of the validation ends the program with exit
  status 1 and its message (any other exception would end it with status 1 and a
  traceback); otherwise the directory is scanned, with the callback unless \<open>--quiet\<close>.
\<close>

definition main_scan :: "fsys \<Rightarrow> args \<Rightarrow> (int \<times> string) + dupset \<times> (int \<times> int) list" where
  "main_scan fs a =
     (case validate_args fs a of
        Inl (ValueError msg) \<Rightarrow> Inl (1, ''Error: '' @ msg)
      | Inl e \<Rightarrow> Inl (1, [])
      | Inr u \<Rightarrow> Inr (find_duplicates fs (directory a) (recursive a) (min_size a) (\<not> quiet a)))"


section \<open>Vocabulary of the statements\<close>

text \<open>
  \<open>filed_under fs m p\<close> is the digest under which a scan with minimum size \<open>m\<close> files
  the path \<open>p\<close>: the file behind the path exists, \<open>stat\<close> succeeds, its size is at least
  \<open>m\<close> and it can be read; otherwise the scan skips the path.
\<close>

definition filed_under :: "fsys \<Rightarrow> int \<Rightarrow> path \<Rightarrow> digest option" where
  "filed_under fs m p =
     (case lookup fs p of
        None \<Rightarrow> None
      | Some f \<Rightarrow>
          if statable f \<and> m \<le> int (length (content f)) \<and> readable f
          then Some (md5_hexdigest (content f)) else None)"

text \<open>One step of the accumulation: the path is appended to the group of its digest, if any.\<close>

definition file_under :: "(path \<Rightarrow> digest option) \<Rightarrow> path \<Rightarrow> dupset \<Rightarrow> dupset" where
  "file_under g p d = (case g p of None \<Rightarrow> d | Some h \<Rightarrow> dd_append d h p)"

text \<open>What one iteration of the outer loop of \<open>delete_duplicates\<close> does to the state.\<close>

definition group_step :: "path list \<Rightarrow> del_state \<Rightarrow> del_state" where
  "group_step filepaths st =
     (case filepaths of
        [] \<Rightarrow> st
      | p0 # others \<Rightarrow>
          (case stat_size (dfs st) p0 of
             None \<Rightarrow> st
           | Some file_size \<Rightarrow> delete_paths file_size others st))"

text \<open>\<open>unlink\<close> of the path would succeed: its entry exists and is not locked.\<close>

definition can_unlink :: "fsys \<Rightarrow> path \<Rightarrow> bool" where
  "can_unlink fs p = (entry_of fs p \<noteq> None \<and> \<not> locked fs (name fs p))"

text \<open>
  The paths that \<open>stat\<close> and \<open>open\<close> visit from a path: the path itself and, while its
  entry is a symbolic link to a path, the path it leads to. \<open>locs_of\<close> are the entries
  that a path needs to denote what it denotes, and \<open>chain_locs\<close> those that \<open>stat\<close> needs
  for a path.
\<close>

fun link_chain :: "(path \<rightharpoonup> entry) \<Rightarrow> nat \<Rightarrow> path \<Rightarrow> path list" where
  "link_chain eo 0 p = [p]"
| "link_chain eo (Suc n) p =
     p # (case eo p of Some (Symlink q) \<Rightarrow> link_chain eo n q | _ \<Rightarrow> [])"

definition locs_of :: "fsys \<Rightarrow> path \<Rightarrow> loc set" where
  "locs_of fs p = insert (name fs p) (set (via fs p))"

definition chain_locs :: "fsys \<Rightarrow> path \<Rightarrow> loc set" where
  "chain_locs fs p = (\<Union>q \<in> set (link_chain (entry_of fs) max_symlinks p). locs_of fs q)"

text \<open>The file system after the entries \<open>S\<close> have been removed.\<close>

definition without :: "loc set \<Rightarrow> fsys \<Rightarrow> fsys" where
  "without S fs = fs\<lparr>files := (\<lambda>l. if l \<in> S then None else files fs l)\<rparr>"

text \<open>The directory exists and can be listed.\<close>

definition accessible_dir :: "fsys \<Rightarrow> path \<Rightarrow> bool" where
  "accessible_dir fs d =
     (case dirs fs d of
        None \<Rightarrow> False
      | Some (Dir listable fnames subs) \<Rightarrow> listable)"

text \<open>The paths that \<open>delete_duplicates\<close> may try to remove: those after index 0 of a group.\<close>

definition targets :: "dupset \<Rightarrow> path set" where
  "targets dups = (\<Union>(h, ps) \<in> set dups. set (tl ps))"





definition shrunk :: "fsys \<Rightarrow> fsys \<Rightarrow> bool" where
  "shrunk fs' fs =
     (name fs' = name fs \<and> via fs' = via fs \<and> locked fs' = locked fs \<and>
      (\<forall>l. files fs' l = None \<or> files fs' l = files fs l))"

subsection \<open>Example file systems\<close>

definition mk_file :: "byte list \<Rightarrow> entry" where
  "mk_file bs = File \<lparr>content = bs, statable = True, readable = True\<rparr>"

text \<open>A directory whose only file can be stat-ed but not opened.\<close>

definition fs_secret :: fsys where
  "fs_secret =
     \<lparr>name = (\<lambda>p. p), via = (\<lambda>p. []),
      files = [''d/secret.txt'' \<mapsto>
                File \<lparr>content = [0x53, 0x45, 0x43, 0x52, 0x45, 0x54],
                      statable = True, readable = False\<rparr>],
      locked = (\<lambda>l. False),
      dirs = [''d'' \<mapsto> Dir True [''d/secret.txt''] []]\<rparr>"

text \<open>\<open>a.txt\<close> and \<open>b.txt\<close> hold \<open>X\<close>, \<open>c.txt\<close> holds \<open>Y\<close>.\<close>

definition fs_xy :: fsys where
  "fs_xy =
     \<lparr>name = (\<lambda>p. p), via = (\<lambda>p. []),
      files = [''d/a.txt'' \<mapsto> mk_file [0x58], ''d/b.txt'' \<mapsto> mk_file [0x58],
               ''d/c.txt'' \<mapsto> mk_file [0x59]],
      locked = (\<lambda>l. False),
      dirs = [''d'' \<mapsto> Dir True [''d/a.txt'', ''d/b.txt'', ''d/c.txt''] []]\<rparr>"

text \<open>A directory that exists and cannot be listed, with two files holding \<open>X\<close> in it.\<close>

definition fs_closed :: fsys where
  "fs_closed =
     \<lparr>name = (\<lambda>p. p), via = (\<lambda>p. []),
      files = [''closed/a.txt'' \<mapsto> mk_file [0x58], ''closed/b.txt'' \<mapsto> mk_file [0x58]],
      locked = (\<lambda>l. False),
      dirs = [''closed'' \<mapsto> Dir False [''closed/a.txt'', ''closed/b.txt''] []]\<rparr>"

definition args_of :: "path \<Rightarrow> args" where
  "args_of d =
     \<lparr>directory = d, recursive = True, min_size = 1, dry_run = False, delete = False,
      quiet = False\<rparr>"

text \<open>Three files holding \<open>X\<close>; \<open>b.txt\<close> cannot be unlinked.\<close>

definition fs_locked :: fsys where
  "fs_locked =
     \<lparr>name = (\<lambda>p. p), via = (\<lambda>p. []),
      files = [''d/a.txt'' \<mapsto> mk_file [0x58], ''d/b.txt'' \<mapsto> mk_file [0x58],
               ''d/c.txt'' \<mapsto> mk_file [0x58]],
      locked = (\<lambda>l. l = ''d/b.txt''),
      dirs = [''d'' \<mapsto> Dir True [''d/a.txt'', ''d/b.txt'', ''d/c.txt''] []]\<rparr>"



text \<open>Two empty files, one of them in a subdirectory, and a file holding \<open>X\<close>.\<close>

definition fs_zero :: fsys where
  "fs_zero =
     \<lparr>name = (\<lambda>p. p), via = (\<lambda>p. []),
      files = [''d/e1'' \<mapsto> mk_file [], ''d/x'' \<mapsto> mk_file [0x58],
               ''d/sub/e2'' \<mapsto> mk_file []],
      locked = (\<lambda>l. False),
      dirs = [''d'' \<mapsto> Dir True [''d/e1'', ''d/x''] [Dir True [''d/sub/e2''] []]]\<rparr>"

text \<open>
  Two files of 128 bytes that differ in six bytes and have the same MD5 digest (the
  collision published by Wang and Yu in 2004).
\<close>

definition coll_a :: "byte list" where
  "coll_a =
     [0xd1, 0x31, 0xdd, 0x02, 0xc5, 0xe6, 0xee, 0xc4, 0x69, 0x3d, 0x9a, 0x06, 0x98, 0xaf, 0xf9, 0x5c,
      0x2f, 0xca, 0xb5, 0x87, 0x12, 0x46, 0x7e, 0xab, 0x40, 0x04, 0x58, 0x3e, 0xb8, 0xfb, 0x7f, 0x89,
      0x55, 0xad, 0x34, 0x06, 0x09, 0xf4, 0xb3, 0x02, 0x83, 0xe4, 0x88, 0x83, 0x25, 0x71, 0x41, 0x5a,
      0x08, 0x51, 0x25, 0xe8, 0xf7, 0xcd, 0xc9, 0x9f, 0xd9, 0x1d, 0xbd, 0xf2, 0x80, 0x37, 0x3c, 0x5b,
      0xd8, 0x82, 0x3e, 0x31, 0x56, 0x34, 0x8f, 0x5b, 0xae, 0x6d, 0xac, 0xd4, 0x36, 0xc9, 0x19, 0xc6,
      0xdd, 0x53, 0xe2, 0xb4, 0x87, 0xda, 0x03, 0xfd, 0x02, 0x39, 0x63, 0x06, 0xd2, 0x48, 0xcd, 0xa0,
      0xe9, 0x9f, 0x33, 0x42, 0x0f, 0x57, 0x7e, 0xe8, 0xce, 0x54, 0xb6, 0x70, 0x80, 0xa8, 0x0d, 0x1e,
      0xc6, 0x98, 0x21, 0xbc, 0xb6, 0xa8, 0x83, 0x93, 0x96, 0xf9, 0x65, 0x2b, 0x6f, 0xf7, 0x2a, 0x70]"

definition coll_b :: "byte list" where
  "coll_b =
     [0xd1, 0x31, 0xdd, 0x02, 0xc5, 0xe6, 0xee, 0xc4, 0x69, 0x3d, 0x9a, 0x06, 0x98, 0xaf, 0xf9, 0x5c,
      0x2f, 0xca, 0xb5, 0x07, 0x12, 0x46, 0x7e, 0xab, 0x40, 0x04, 0x58, 0x3e, 0xb8, 0xfb, 0x7f, 0x89,
      0x55, 0xad, 0x34, 0x06, 0x09, 0xf4, 0xb3, 0x02, 0x83, 0xe4, 0x88, 0x83, 0x25, 0xf1, 0x41, 0x5a,
      0x08, 0x51, 0x25, 0xe8, 0xf7, 0xcd, 0xc9, 0x9f, 0xd9, 0x1d, 0xbd, 0x72, 0x80, 0x37, 0x3c, 0x5b,
      0xd8, 0x82, 0x3e, 0x31, 0x56, 0x34, 0x8f, 0x5b, 0xae, 0x6d, 0xac, 0xd4, 0x36, 0xc9, 0x19, 0xc6,
      0xdd, 0x53, 0xe2, 0x34, 0x87, 0xda, 0x03, 0xfd, 0x02, 0x39, 0x63, 0x06, 0xd2, 0x48, 0xcd, 0xa0,
      0xe9, 0x9f, 0x33, 0x42, 0x0f, 0x57, 0x7e, 0xe8, 0xce, 0x54, 0xb6, 0x70, 0x80, 0x28, 0x0d, 0x1e,
      0xc6, 0x98, 0x21, 0xbc, 0xb6, 0xa8, 0x83, 0x93, 0x96, 0xf9, 0x65, 0xab, 0x6f, 0xf7, 0x2a, 0x70]"

definition fs_coll :: fsys where
  "fs_coll =
     \<lparr>name = (\<lambda>p. p), via = (\<lambda>p. []),
      files = [''d/a.bin'' \<mapsto> mk_file coll_a, ''d/b.bin'' \<mapsto> mk_file coll_b],
      locked = (\<lambda>l. False),
      dirs = [''d'' \<mapsto> Dir True [''d/a.bin'', ''d/b.bin''] []]\<rparr>"

section \<open>The hash of a file\<close>

lemma fold_append_chunks:
  "0 < n \<Longrightarrow> fold (\<lambda>c msg. msg @ c) (chunks n xs) msg = msg @ xs"
proof (induction n xs arbitrary: msg rule: chunks.induct)
  case (1 n xs)
  show ?case
  proof (cases "xs = []")
    case True
    then show ?thesis by (simp add: chunks.simps)
  next
    case False
    with 1 show ?thesis
      by (subst chunks.simps) simp
  qed
qed

lemma fold_md5_update_chunks:
  assumes "0 < n"
  shows "fold md5_update (chunks n xs) msg = msg @ xs"
proof -
  have eq: "md5_update = (\<lambda>c msg. msg @ c)"
    by (simp add: fun_eq_iff md5_update_def)
  show ?thesis
    unfolding eq using assms by (rule fold_append_chunks)
qed

lemma calculate_file_hash_eq:
  "0 < n \<Longrightarrow> calculate_file_hash fs p n = map_option md5_hexdigest (open_rb fs p)"
  by (simp add: calculate_file_hash_def fold_md5_update_chunks split: option.splits)

lemma md5_hexdigest_nonempty: "md5_hexdigest bs \<noteq> []"
  by (simp add: md5_hexdigest_def hex_byte_def le_bytes4_def split: prod.splits)

section \<open>Following symbolic links\<close>

lemma resolve_numeral:
  "resolve fm (numeral k) p =
     (case fm p of
        None \<Rightarrow> None
      | Some (File f) \<Rightarrow> Some f
      | Some (DirLink d) \<Rightarrow> Some (d\<lparr>readable := False\<rparr>)
      | Some (Symlink q) \<Rightarrow> resolve fm (pred_numeral k) q)"
  by (simp add: numeral_eq_Suc)


lemmas lookup_eval =
  lookup_def entry_of_def present_def max_symlinks_def resolve_numeral mk_file_def

text \<open>Only the entries on the chain of links matter.\<close>

lemma resolve_cong_chain:
  "\<forall>q \<in> set (link_chain fm n p). fm' q = fm q \<Longrightarrow> resolve fm' n p = resolve fm n p"
proof (induction n arbitrary: p)
  case 0
  then show ?case by simp
next
  case (Suc n)
  from Suc.prems have p: "fm' p = fm p" by simp
  show ?case
  proof (cases "fm p")
    case None
    with p show ?thesis by simp
  next
    case (Some e)
    show ?thesis
    proof (cases e)
      case (File f)
      with Some p show ?thesis by simp
    next
      case (Symlink q)
      with Some Suc.prems have "\<forall>x \<in> set (link_chain fm n q). fm' x = fm x" by simp
      from Suc.IH [OF this] Some Symlink p show ?thesis by simp
    next
      case (DirLink g)
      with Some p show ?thesis by simp
    qed
  qed
qed

text \<open>More links allowed change no answer.\<close>

lemma resolve_mono:
  "resolve fm k p = Some f \<Longrightarrow> k \<le> n \<Longrightarrow> resolve fm n p = Some f"
proof (induction k arbitrary: n p)
  case 0
  then show ?case
    by (cases n) (auto split: option.splits entry.splits)
next
  case (Suc k)
  from Suc.prems obtain n' where n: "n = Suc n'" and le: "k \<le> n'"
    by (cases n) auto
  show ?case
  proof (cases "fm p")
    case None
    with Suc.prems show ?thesis by simp
  next
    case (Some e)
    show ?thesis
    proof (cases e)
      case (File g)
      with Some Suc.prems show ?thesis by (simp add: n)
    next
      case (Symlink q)
      with Some Suc.prems have "resolve fm k q = Some f" by simp
      from Suc.IH [OF this le] Some Symlink show ?thesis by (simp add: n)
    next
      case (DirLink g)
      with Some Suc.prems show ?thesis by (simp add: n)
    qed
  qed
qed

text \<open>Every path on the chain of a path that resolves leads to the same file.\<close>

lemma resolve_chain:
  "resolve fm n p = Some f \<Longrightarrow> q \<in> set (link_chain fm n p) \<Longrightarrow> resolve fm n q = Some f"
proof (induction n arbitrary: p)
  case 0
  then show ?case by simp
next
  case (Suc n)
  show ?case
  proof (cases "q = p")
    case True
    with Suc.prems show ?thesis by simp
  next
    case False
    with Suc.prems obtain t where e: "fm p = Some (Symlink t)"
      and q: "q \<in> set (link_chain fm n t)"
      by (auto split: option.splits entry.splits)
    from Suc.prems e have "resolve fm n t = Some f" by simp
    from Suc.IH [OF this q] have "resolve fm n q = Some f" .
    then show ?thesis by (rule resolve_mono) simp
  qed
qed

text \<open>Two paths with the same entry resolve alike.\<close>

lemma resolve_same_entry: "fm p = fm q \<Longrightarrow> resolve fm n p = resolve fm n q"
  by (cases n) simp_all


text \<open>In a file system with fewer entries a path resolves as before or not at all.\<close>

lemma resolve_shrunk:
  "\<forall>q. fm' q = None \<or> fm' q = fm q \<Longrightarrow>
   resolve fm' n p = None \<or> resolve fm' n p = resolve fm n p"
proof (induction n arbitrary: p)
  case 0
  then have "fm' p = None \<or> fm' p = fm p" by blast
  then show ?case by auto
next
  case (Suc n)
  then have "fm' p = None \<or> fm' p = fm p" by blast
  then show ?case
  proof
    assume "fm' p = None"
    then show ?thesis by simp
  next
    assume eq: "fm' p = fm p"
    show ?thesis
    proof (cases "fm p")
      case None
      with eq show ?thesis by simp
    next
      case (Some e)
      show ?thesis
      proof (cases e)
        case (File f)
        with Some eq show ?thesis by simp
      next
        case (Symlink q)
        with Some eq Suc.IH [OF Suc.prems, of q] show ?thesis by simp
      next
        case (DirLink g)
        with Some eq show ?thesis by simp
      qed
    qed
  qed
qed

section \<open>What a scan accumulates\<close>

lemma scan_file_duplicates:
  "duplicates (scan_file fs m cb p st) =
     (case filed_under fs m p of
        None \<Rightarrow> duplicates st
      | Some h \<Rightarrow> dd_append (duplicates st) h p)"
  by (auto simp: scan_file_def filed_under_def stat_size_def open_rb_def Let_def
        calculate_file_hash_eq md5_hexdigest_nonempty split: option.splits)

lemma fold_concat: "fold (\<lambda>xs st. fold f xs st) xss st = fold f (concat xss) st"
  by (induction xss arbitrary: st) simp_all

lemma map_of_dd_append:
  "map_of (dd_append d h p) =
     (map_of d)(h \<mapsto> (case map_of d h of None \<Rightarrow> [p] | Some l \<Rightarrow> l @ [p]))"
  by (induction d h p rule: dd_append.induct) (auto simp: fun_eq_iff)

lemma keys_dd_append:
  "map fst (dd_append d h p) = (if h \<in> fst ` set d then map fst d else map fst d @ [h])"
  by (induction d h p rule: dd_append.induct) auto

lemma distinct_dd_append:
  "distinct (map fst d) \<Longrightarrow> distinct (map fst (dd_append d h p))"
  by (simp add: keys_dd_append)

lemma distinct_fold_file_under:
  "distinct (map fst d) \<Longrightarrow> distinct (map fst (fold (file_under g) ps d))"
  by (induction ps arbitrary: d) (auto simp: file_under_def distinct_dd_append split: option.splits)

lemma map_of_fold_file_under:
  "map_of (fold (file_under g) ps d) h =
     (case map_of d h of
        None \<Rightarrow> (if filter (\<lambda>p. g p = Some h) ps = [] then None
                 else Some (filter (\<lambda>p. g p = Some h) ps))
      | Some l \<Rightarrow> Some (l @ filter (\<lambda>p. g p = Some h) ps))"
proof (induction ps arbitrary: d)
  case Nil
  then show ?case by (simp split: option.splits)
next
  case (Cons p ps)
  have "map_of (file_under g p d) h =
          (case g p of
             None \<Rightarrow> map_of d h
           | Some k \<Rightarrow>
               if k = h then Some (case map_of d h of None \<Rightarrow> [p] | Some l \<Rightarrow> l @ [p])
               else map_of d h)"
    by (simp add: file_under_def map_of_dd_append split: option.splits)
  then show ?case
    by (simp add: Cons.IH split: option.splits)
qed

lemma duplicates_fold_scan_file:
  "duplicates (fold (scan_file fs m cb) ps st) =
     fold (file_under (filed_under fs m)) ps (duplicates st)"
  by (induction ps arbitrary: st) (simp_all add: scan_file_duplicates file_under_def)

lemma duplicates_scan:
  "duplicates (scan fs d r m cb) =
     fold (file_under (filed_under fs m)) (concat (visited fs d r)) []"
  by (simp add: scan_def fold_concat duplicates_fold_scan_file scan_init_def)

lemma scan_groups:
  "(h, ps) \<in> set (duplicates (scan fs d r m cb)) \<longleftrightarrow>
     ps = filter (\<lambda>p. filed_under fs m p = Some h) (concat (visited fs d r)) \<and> ps \<noteq> []"
proof -
  let ?D = "duplicates (scan fs d r m cb)"
  let ?G = "filter (\<lambda>p. filed_under fs m p = Some h) (concat (visited fs d r))"
  have dist: "distinct (map fst ?D)"
    by (simp add: duplicates_scan distinct_fold_file_under)
  have look: "map_of ?D h = (if ?G = [] then None else Some ?G)"
    using map_of_fold_file_under [of "filed_under fs m" "concat (visited fs d r)" "[]" h]
    by (simp add: duplicates_scan)
  have "(h, ps) \<in> set ?D \<longleftrightarrow> map_of ?D h = Some ps"
    using dist by simp
  then show ?thesis
    by (auto simp: look)
qed

lemma find_duplicates_groups:
  "(h, ps) \<in> set (fst (find_duplicates fs d r m cb)) \<longleftrightarrow>
     ps = filter (\<lambda>p. filed_under fs m p = Some h) (concat (visited fs d r)) \<and> 1 < length ps"
  by (auto simp: find_duplicates_def Let_def scan_groups)

section \<open>Digests of the example files\<close>

text \<open>The digests are computed by rewriting with the definitions of the digest.\<close>

lemma upt64: "[0..<64] = 0 # Suc 0 # [2..<64]"
proof -
  have "[0..<64] = 0 # [Suc 0..<64]"
    by (rule upt_conv_Cons) simp
  also have "[Suc 0..<64] = Suc 0 # [Suc (Suc 0)..<64]"
    by (rule upt_conv_Cons) simp
  also have "Suc (Suc 0) = 2"
    by simp
  finally show ?thesis .
qed

lemma replicate_numeral: "replicate (numeral k) x = x # replicate (pred_numeral k) x"
  by (simp add: numeral_eq_Suc)

lemmas md5_eval =
  chunks.simps upt64 md5_init_def md5_s_def md5_K_def add32_def not32_def rotl32_def
  md5_F_def md5_g_def le_bytes4_def hex_byte_def hex_digit_def

lemma md5_words_X: "md5_words (md5_pad [0x58]) =
     [32856, 0, 0, 0, 0, 0,
      0, 0, 0, 0, 0, 0,
      0, 0, 8, 0]"
  by (simp add: md5_pad_def le_bytes4_def replicate_numeral)

lemma md5_hexdigest_X: "md5_hexdigest [0x58] = ''02129bb861061d1a052c592e2dc6b383''"
  unfolding md5_hexdigest_def md5_words_X by (simp add: md5_eval)

lemma md5_words_Y: "md5_words (md5_pad [0x59]) =
     [32857, 0, 0, 0, 0, 0,
      0, 0, 0, 0, 0, 0,
      0, 0, 8, 0]"
  by (simp add: md5_pad_def le_bytes4_def replicate_numeral)

lemma md5_hexdigest_Y: "md5_hexdigest [0x59] = ''57cec4137b614c87cb4e24a3d003a3e0''"
  unfolding md5_hexdigest_def md5_words_Y by (simp add: md5_eval)

lemma length_coll_a: "length coll_a = 128"
  by (simp add: coll_a_def)

lemma length_coll_b: "length coll_b = 128"
  by (simp add: coll_b_def)

lemma md5_words_coll_a: "md5_words (md5_pad coll_a) =
     [48050641, 3303990981, 110771561, 1559867288, 2276837935, 2877179410,
      1045955648, 2306866104, 104115541, 45347849, 2206786691, 1514238245,
      3894759688, 2680802807, 4072480217, 1530673024, 826180312, 1536111702,
      3568070062, 3323578678, 3034731485, 4244888199, 107165954, 2697808082,
      1110679529, 3900593935, 1890997454, 504211584, 3156318406, 2474879158,
      728103318, 1881864047, 128, 0, 0, 0,
      0, 0, 0, 0, 0, 0,
      0, 0, 0, 0, 1024, 0]"
  by (simp add: md5_pad_def length_coll_a le_bytes4_def replicate_numeral) (simp add: coll_a_def)

lemma md5_words_coll_b: "md5_words (md5_pad coll_b) =
     [48050641, 3303990981, 110771561, 1559867288, 129354287, 2877179410,
      1045955648, 2306866104, 104115541, 45347849, 2206786691, 1514271013,
      3894759688, 2680802807, 1924996569, 1530673024, 826180312, 1536111702,
      3568070062, 3323578678, 887247837, 4244888199, 107165954, 2697808082,
      1110679529, 3900593935, 1890997454, 504178816, 3156318406, 2474879158,
      2875586966, 1881864047, 128, 0, 0, 0,
      0, 0, 0, 0, 0, 0,
      0, 0, 0, 0, 1024, 0]"
  by (simp add: md5_pad_def length_coll_b le_bytes4_def replicate_numeral) (simp add: coll_b_def)

lemma md5_hexdigest_coll_a: "md5_hexdigest coll_a = ''79054025255fb1a26e4bc422aef54eb4''"
  unfolding md5_hexdigest_def md5_words_coll_a by (simp add: md5_eval)

lemma md5_hexdigest_coll_b: "md5_hexdigest coll_b = ''79054025255fb1a26e4bc422aef54eb4''"
  unfolding md5_hexdigest_def md5_words_coll_b by (simp add: md5_eval)

lemma coll_differ: "coll_a \<noteq> coll_b"
  by (simp add: coll_a_def coll_b_def)

lemmas scan_eval =
  find_duplicates_def scan_def visited_def os_walk_def scan_file_def stat_size_def
  calculate_file_hash_eq open_rb_def scan_init_def lookup_eval

lemma find_duplicates_xy:
  "find_duplicates fs_xy ''d'' True 1 False =
     ([(''02129bb861061d1a052c592e2dc6b383'', [''d/a.txt'', ''d/b.txt''])], [])"
  by (simp add: scan_eval fs_xy_def md5_hexdigest_X md5_hexdigest_Y)

lemma find_duplicates_coll:
  "find_duplicates fs_coll ''d'' True 1 False =
     ([(''79054025255fb1a26e4bc422aef54eb4'', [''d/a.bin'', ''d/b.bin''])], [])"
  by (simp add: scan_eval fs_coll_def md5_hexdigest_coll_a md5_hexdigest_coll_b
        length_coll_a length_coll_b)

section \<open>Grouping by digest\<close>

lemma same_group_iff:
  assumes "A \<noteq> B"
  shows "(\<exists>(h, ps) \<in> set (fst (find_duplicates fs d r m cb)). A \<in> set ps \<and> B \<in> set ps) \<longleftrightarrow>
         A \<in> set (concat (visited fs d r)) \<and> B \<in> set (concat (visited fs d r)) \<and>
         (\<exists>h. filed_under fs m A = Some h \<and> filed_under fs m B = Some h)"
    (is "?L \<longleftrightarrow> ?R")
proof
  assume ?L
  then obtain h ps where g: "(h, ps) \<in> set (fst (find_duplicates fs d r m cb))"
    and m: "A \<in> set ps" "B \<in> set ps" by auto
  from g have "ps = filter (\<lambda>p. filed_under fs m p = Some h) (concat (visited fs d r))"
    by (simp add: find_duplicates_groups)
  with m show ?R by auto
next
  assume R: ?R
  then obtain h where h: "filed_under fs m A = Some h" "filed_under fs m B = Some h"
    by auto
  let ?ps = "filter (\<lambda>p. filed_under fs m p = Some h) (concat (visited fs d r))"
  from R h have mem: "A \<in> set ?ps" "B \<in> set ?ps" by auto
  have "1 < length ?ps"
  proof (rule ccontr)
    assume "\<not> 1 < length ?ps"
    then have "length ?ps \<le> 1" by simp
    then obtain x where "set ?ps \<subseteq> {x}"
      by (cases ?ps) auto
    with mem assms show False by auto
  qed
  then have "(h, ?ps) \<in> set (fst (find_duplicates fs d r m cb))"
    by (simp add: find_duplicates_groups)
  with mem show ?L by blast
qed

text \<open>
  C1, as stated (two files share a group if and only if their bytes are identical), fails:
  the scan compares MD5 digests, and two files of equal size and different content that
  have the same digest are put in one group.
\<close>

theorem md5_collision_shares_group:
  "coll_a \<noteq> coll_b \<and> length coll_a = length coll_b \<and>
   files fs_coll ''d/a.bin'' = Some (mk_file coll_a) \<and>
   files fs_coll ''d/b.bin'' = Some (mk_file coll_b) \<and>
   fst (find_duplicates fs_coll ''d'' True 1 False) =
     [(''79054025255fb1a26e4bc422aef54eb4'', [''d/a.bin'', ''d/b.bin''])]"
proof (intro conjI)
  show "coll_a \<noteq> coll_b" by (rule coll_differ)
  show "length coll_a = length coll_b" by (simp add: length_coll_a length_coll_b)
  show "files fs_coll ''d/a.bin'' = Some (mk_file coll_a)" by (simp add: fs_coll_def)
  show "files fs_coll ''d/b.bin'' = Some (mk_file coll_b)" by (simp add: fs_coll_def)
  show "fst (find_duplicates fs_coll ''d'' True 1 False) =
     [(''79054025255fb1a26e4bc422aef54eb4'', [''d/a.bin'', ''d/b.bin''])]"
    by (simp add: find_duplicates_coll)
qed

text \<open>
  C1, amended: two distinct paths enumerated by a scan are in the same group of the result
  if and only if the scan files both (\<open>stat\<close> succeeds, the size is at least \<open>min_size\<close>,
  the file can be read) under the same MD5 digest. In particular two such files with
  identical bytes always share a group, and files with different digests never do.
\<close>

theorem same_group_iff_same_digest:
  assumes "A \<in> set (concat (visited fs d r))" and "B \<in> set (concat (visited fs d r))"
    and "A \<noteq> B"
  shows "((\<exists>(h, ps) \<in> set (fst (find_duplicates fs d r m cb)). A \<in> set ps \<and> B \<in> set ps) \<longleftrightarrow>
          (\<exists>h. filed_under fs m A = Some h \<and> filed_under fs m B = Some h)) \<and>
         (\<forall>fa fb. lookup fs A = Some fa \<and> lookup fs B = Some fb \<and> content fa = content fb \<and>
             statable fa \<and> statable fb \<and> readable fa \<and> readable fb \<and>
             m \<le> int (length (content fa)) \<longrightarrow>
            (\<exists>(h, ps) \<in> set (fst (find_duplicates fs d r m cb)). A \<in> set ps \<and> B \<in> set ps))"
  using assms by (auto simp: same_group_iff filed_under_def)

theorem same_group_iff_same_digest_witness:
  "((\<exists>(h, ps) \<in> set (fst (find_duplicates fs_xy ''d'' True 1 False)).
        ''d/a.txt'' \<in> set ps \<and> ''d/b.txt'' \<in> set ps) \<longleftrightarrow>
    (\<exists>h. filed_under fs_xy 1 ''d/a.txt'' = Some h \<and> filed_under fs_xy 1 ''d/b.txt'' = Some h)) \<and>
   (\<exists>(h, ps) \<in> set (fst (find_duplicates fs_xy ''d'' True 1 False)).
        ''d/a.txt'' \<in> set ps \<and> ''d/b.txt'' \<in> set ps)"
proof -
  have v: "concat (visited fs_xy ''d'' True) = [''d/a.txt'', ''d/b.txt'', ''d/c.txt'']"
    by (simp add: visited_def os_walk_def entry_of_def present_def fs_xy_def)
  have a: "''d/a.txt'' \<in> set (concat (visited fs_xy ''d'' True))"
    and b: "''d/b.txt'' \<in> set (concat (visited fs_xy ''d'' True))"
    and ab: "''d/a.txt'' \<noteq> ''d/b.txt''"
    by (simp_all add: v)
  let ?x = "\<lparr>content = [0x58], statable = True, readable = True\<rparr>"
  have f: "lookup fs_xy ''d/a.txt'' = Some ?x" "lookup fs_xy ''d/b.txt'' = Some ?x"
    by (simp_all add: fs_xy_def lookup_eval)
  note T = same_group_iff_same_digest [OF a b ab, of 1 False]
  have "\<exists>(h, ps) \<in> set (fst (find_duplicates fs_xy ''d'' True 1 False)).
          ''d/a.txt'' \<in> set ps \<and> ''d/b.txt'' \<in> set ps"
    by (rule T [THEN conjunct2, rule_format, of ?x ?x]) (simp add: f)
  with T [THEN conjunct1] show ?thesis by blast
qed

text \<open>
  C8: every group of a scan result lists, in traversal order, exactly the enumerated paths
  that the scan files under the group's digest; so its first path, the keeper, is the
  member met first: no member of the group occurs before it in the traversal.
\<close>

theorem group_in_traversal_order:
  assumes "(h, ps) \<in> set (fst (find_duplicates fs d r m cb))"
  shows "ps = filter (\<lambda>p. filed_under fs m p = Some h) (concat (visited fs d r)) \<and>
         (\<exists>before after. concat (visited fs d r) = before @ hd ps # after \<and>
                          set before \<inter> set ps = {})"
proof -
  let ?P = "\<lambda>p. filed_under fs m p = Some h"
  let ?V = "concat (visited fs d r)"
  from assms have "ps = filter ?P ?V \<and> 1 < length ps"
    unfolding find_duplicates_groups .
  then have ps: "ps = filter ?P ?V" and len: "1 < length ps"
    by blast+
  from len obtain x xs where c: "ps = x # xs" by (cases ps) auto
  with ps have "filter ?P ?V = x # xs" by simp
  then obtain us vs where V: "?V = us @ x # vs" and us: "\<forall>u \<in> set us. \<not> ?P u"
    by (auto simp: filter_eq_Cons_iff)
  from us ps have "set us \<inter> set ps = {}" by auto
  with V c ps show ?thesis by auto
qed

theorem group_in_traversal_order_witness:
  "[''d/a.txt'', ''d/b.txt''] =
     filter (\<lambda>p. filed_under fs_xy 1 p = Some ''02129bb861061d1a052c592e2dc6b383'')
       (concat (visited fs_xy ''d'' True)) \<and>
   (\<exists>before after.
      concat (visited fs_xy ''d'' True) = before @ hd [''d/a.txt'', ''d/b.txt''] # after \<and>
      set before \<inter> set [''d/a.txt'', ''d/b.txt''] = {})"
proof -
  have h: "(''02129bb861061d1a052c592e2dc6b383'', [''d/a.txt'', ''d/b.txt''])
            \<in> set (fst (find_duplicates fs_xy ''d'' True 1 False))"
    by (simp add: find_duplicates_xy)
  show ?thesis by (rule group_in_traversal_order [OF h])
qed

text \<open>
  C9: with \<open>min_size = 0\<close> a zero-byte file is not filtered out, and when the scan
  enumerates two or more zero-byte files (that can be stat-ed and read) the result has a
  group, under the digest of the empty content, that contains every one of them.
\<close>

theorem zero_byte_files_one_group:
  assumes "A \<in> set (concat (visited fs d r))" and "B \<in> set (concat (visited fs d r))"
    and "A \<noteq> B"
    and "lookup fs A = Some fa" and "content fa = []" and "statable fa" and "readable fa"
    and "lookup fs B = Some fb" and "content fb = []" and "statable fb" and "readable fb"
  shows "\<exists>ps. (md5_hexdigest [], ps) \<in> set (fst (find_duplicates fs d r 0 cb)) \<and>
           (\<forall>p \<in> set (concat (visited fs d r)).
              (\<exists>f. lookup fs p = Some f \<and> content f = [] \<and> statable f \<and> readable f) \<longrightarrow>
              p \<in> set ps)"
proof -
  let ?h = "md5_hexdigest []"
  let ?ps = "filter (\<lambda>p. filed_under fs 0 p = Some ?h) (concat (visited fs d r))"
  have z: "filed_under fs 0 p = Some ?h"
    if "lookup fs p = Some f" "content f = []" "statable f" "readable f" for p f
    using that by (simp add: filed_under_def)
  from assms have "A \<in> set ?ps" "B \<in> set ?ps"
    by (simp_all add: z)
  with \<open>A \<noteq> B\<close> have "1 < length ?ps"
    by (cases ?ps rule: list.exhaust; cases "tl ?ps") auto
  then have "(?h, ?ps) \<in> set (fst (find_duplicates fs d r 0 cb))"
    by (simp add: find_duplicates_groups)
  moreover have "\<forall>p \<in> set (concat (visited fs d r)).
      (\<exists>f. lookup fs p = Some f \<and> content f = [] \<and> statable f \<and> readable f) \<longrightarrow> p \<in> set ?ps"
    by (auto simp: z)
  ultimately show ?thesis by blast
qed

theorem zero_byte_files_one_group_witness:
  "\<exists>ps. (md5_hexdigest [], ps) \<in> set (fst (find_duplicates fs_zero ''d'' True 0 False)) \<and>
         ''d/e1'' \<in> set ps \<and> ''d/sub/e2'' \<in> set ps"
proof -
  have v: "concat (visited fs_zero ''d'' True) = [''d/e1'', ''d/x'', ''d/sub/e2'']"
    by (simp add: visited_def os_walk_def entry_of_def present_def fs_zero_def)
  have a: "''d/e1'' \<in> set (concat (visited fs_zero ''d'' True))"
    and b: "''d/sub/e2'' \<in> set (concat (visited fs_zero ''d'' True))"
    and ab: "''d/e1'' \<noteq> ''d/sub/e2''"
    by (simp_all add: v)
  let ?e = "\<lparr>content = [], statable = True, readable = True\<rparr>"
  have f: "lookup fs_zero ''d/e1'' = Some ?e" "lookup fs_zero ''d/sub/e2'' = Some ?e"
    by (simp_all add: fs_zero_def lookup_eval)
  have m: "content ?e = []" "statable ?e" "readable ?e"
    by simp_all
  from zero_byte_files_one_group [OF a b ab f(1) m f(2) m, of False]
  obtain ps where g: "(md5_hexdigest [], ps) \<in> set (fst (find_duplicates fs_zero ''d'' True 0 False))"
    and all: "\<forall>p \<in> set (concat (visited fs_zero ''d'' True)).
      (\<exists>f. lookup fs_zero p = Some f \<and> content f = [] \<and> statable f \<and> readable f) \<longrightarrow> p \<in> set ps"
    by blast
  from all a f(1) m have "''d/e1'' \<in> set ps" by blast
  moreover from all b f(2) m have "''d/sub/e2'' \<in> set ps" by blast
  ultimately show ?thesis using g by blast
qed

section \<open>Progress reporting\<close>

text \<open>
  C3 (the callback fires exactly once per 100 successfully hashed files). The test of
  the callback comes after the \<open>if file_hash:\<close> block, not inside it, so it also runs
  for a file that passed the size filter and could not be hashed. In a directory whose
  only file is unreadable, no file is hashed and the callback is invoked with \<open>(0, 1)\<close>.
\<close>

theorem progress_fires_without_hash:
  "snd (find_duplicates fs_secret ''d'' True 1 True) = [(0, 1)]"
  by (simp add: find_duplicates_def scan_def visited_def os_walk_def fs_secret_def lookup_eval
        scan_file_def stat_size_def calculate_file_hash_def open_rb_def scan_init_def)

section \<open>A root that is not an accessible directory\<close>

lemma find_duplicates_not_accessible:
  "\<not> accessible_dir fs d \<Longrightarrow> find_duplicates fs d r m cb = ([], [])"
proof (cases "dirs fs d")
  case None
  then show ?thesis
    by (simp add: find_duplicates_def scan_def visited_def os_walk_def scan_init_def)
next
  case (Some t)
  assume "\<not> accessible_dir fs d"
  with Some have "walk_tree fs t = []"
    by (cases t) (simp add: accessible_dir_def)
  with Some show ?thesis
    by (simp add: find_duplicates_def scan_def visited_def os_walk_def scan_init_def)
qed

text \<open>
  C4, as stated (the scan signals an error for a root that is not an accessible directory
  and does not return an ordinary empty result), fails: \<open>find_duplicates\<close> on a path that
  names no directory returns the empty dictionary, and no callback is invoked; and so it
  does on a directory that exists and cannot be listed, which \<open>validate_args\<close> accepts.
\<close>

theorem invalid_root_scan_returns_empty:
  "find_duplicates fs_xy ''/path/that/does/not/exist'' True 1 True = ([], []) \<and>
   find_duplicates fs_closed ''closed'' True 1 True = ([], []) \<and>
   validate_args fs_closed (args_of ''closed'') = Inr ()"
  by (simp add: find_duplicates_not_accessible accessible_dir_def fs_xy_def fs_closed_def
        validate_args_def isdir_def args_of_def)

text \<open>
  C4, amended: for a root that is not an accessible directory, \<open>find_duplicates\<close> itself
  returns the empty result without an error. The only rejection is the command line's,
  and only for a root that is no directory at all (\<open>os.path.isdir\<close> is false):
  \<open>validate_args\<close> raises \<open>ValueError\<close> naming the directory, and \<open>main\<close> ends with exit
  status 1 before any scan. A root that is a directory and cannot be listed passes the
  validation (when the other arguments are valid), and \<open>main\<close> scans it and goes on with
  the empty result.
\<close>

theorem inaccessible_root_scan_and_cli:
  assumes "\<not> accessible_dir fs (directory a)"
  shows "find_duplicates fs (directory a) r m cb = ([], []) \<and>
     (\<not> isdir fs (directory a) \<longrightarrow>
        validate_args fs a =
          Inl (ValueError
                ([CHR 0x27] @ directory a @ [CHR 0x27] @ '' is not a valid directory'')) \<and>
        main_scan fs a =
          Inl (1, ''Error: '' @ [CHR 0x27] @ directory a @ [CHR 0x27] @
                  '' is not a valid directory'')) \<and>
     (isdir fs (directory a) \<and> \<not> (delete a \<and> dry_run a) \<and> 0 \<le> min_size a \<longrightarrow>
        validate_args fs a = Inr () \<and> main_scan fs a = Inr ([], []))"
  using assms
  by (auto simp: find_duplicates_not_accessible validate_args_def main_scan_def)

theorem inaccessible_root_scan_and_cli_witness:
  "find_duplicates fs_xy ''nowhere'' True 1 False = ([], []) \<and>
   validate_args fs_xy (args_of ''nowhere'') =
     Inl (ValueError ([CHR 0x27] @ ''nowhere'' @ [CHR 0x27] @ '' is not a valid directory'')) \<and>
   main_scan fs_xy (args_of ''nowhere'') =
     Inl (1, ''Error: '' @ [CHR 0x27] @ ''nowhere'' @ [CHR 0x27] @ '' is not a valid directory'') \<and>
   find_duplicates fs_closed ''closed'' True 1 False = ([], []) \<and>
   validate_args fs_closed (args_of ''closed'') = Inr () \<and>
   main_scan fs_closed (args_of ''closed'') = Inr ([], [])"
proof -
  have h1: "\<not> accessible_dir fs_xy (directory (args_of ''nowhere''))"
    and n1: "\<not> isdir fs_xy (directory (args_of ''nowhere''))"
    by (simp_all add: accessible_dir_def isdir_def fs_xy_def args_of_def)
  have h2: "\<not> accessible_dir fs_closed (directory (args_of ''closed''))"
    and n2: "isdir fs_closed (directory (args_of ''closed'')) \<and>
             \<not> (delete (args_of ''closed'') \<and> dry_run (args_of ''closed'')) \<and>
             0 \<le> min_size (args_of ''closed'')"
    by (simp_all add: accessible_dir_def isdir_def fs_closed_def args_of_def)
  have d: "directory (args_of ''nowhere'') = ''nowhere''"
    "directory (args_of ''closed'') = ''closed''"
    by (simp_all add: args_of_def)
  from inaccessible_root_scan_and_cli [OF h1, of True 1 False] n1
       inaccessible_root_scan_and_cli [OF h2, of True 1 False] n2
  show ?thesis
    by (simp only: d simp_thms)
qed

section \<open>\<open>analyze_duplicates\<close>\<close>

lemma analyze_loop_sum:
  "\<forall>(h, ps) \<in> set dups. ps \<noteq> [] \<Longrightarrow>
   analyze_loop fs dups acc =
     Inr (acc + (\<Sum>(h, ps) \<leftarrow> dups.
                  case stat_size fs (hd ps) of
                    None \<Rightarrow> 0
                  | Some sz \<Rightarrow> int sz * (int (length ps) - 1)))"
proof (induction dups arbitrary: acc)
  case Nil
  then show ?case by simp
next
  case (Cons g dups)
  obtain h ps where g: "g = (h, ps)" by (cases g)
  with Cons.prems obtain p0 rest where ps: "ps = p0 # rest"
    by (cases ps) auto
  from Cons.prems have "\<forall>(h, ps) \<in> set dups. ps \<noteq> []" by simp
  note IH = Cons.IH [OF this]
  show ?case
    by (simp add: g ps IH split: option.splits)
qed

text \<open>
  C5: for a set whose groups are not empty (a group of a scan result has at least two
  paths), \<open>analyze_duplicates\<close> returns the number of groups and the sum over the groups
  of the size of the first path times the group length minus one; a group whose first
  path cannot be stat-ed adds nothing, and the call does not fail.
\<close>

theorem analyze_duplicates_sum:
  assumes "\<forall>(h, ps) \<in> set dups. ps \<noteq> []"
  shows "analyze_duplicates fs dups =
     Inr (int (length dups),
          (\<Sum>(h, ps) \<leftarrow> dups.
             case stat_size fs (hd ps) of
               None \<Rightarrow> 0
             | Some sz \<Rightarrow> int sz * (int (length ps) - 1)))"
  by (simp add: analyze_duplicates_def analyze_loop_sum [OF assms])

theorem analyze_duplicates_sum_witness:
  "analyze_duplicates fs_xy
     [(''h1'', [''d/a.txt'', ''d/b.txt'', ''d/c.txt'']), (''h2'', [''d/gone.txt'', ''d/c.txt''])] =
     Inr (2, 2)"
proof -
  have h: "\<forall>(h, ps) \<in> set [(''h1'', [''d/a.txt'', ''d/b.txt'', ''d/c.txt'']),
                     (''h2'', [''d/gone.txt'', ''d/c.txt''])]. ps \<noteq> []"
    by simp
  show ?thesis
    using h analyze_duplicates_sum [OF h, of fs_xy]
    by (simp add: stat_size_def fs_xy_def lookup_eval)
qed

section \<open>\<open>delete_duplicates\<close>\<close>

lemma delete_loop_fold:
  "delete_loop dups st = Inr (fold (\<lambda>(h, ps). group_step ps) dups st)"
proof (induction dups arbitrary: st)
  case Nil
  then show ?case by simp
next
  case (Cons g dups)
  obtain h ps where g: "g = (h, ps)" by (cases g)
  show ?case
    by (simp add: g Cons.IH delete_group_def group_step_def split: list.splits option.splits)
qed

text \<open>
  C10: a group whose path list is empty is a no-op for \<open>delete_duplicates\<close>: the call
  returns normally, and its result (counters, file system, \<open>unlink\<close> calls) is the one
  of the same call without that group, whatever groups come before and after it.
\<close>

theorem delete_duplicates_empty_group:
  "delete_duplicates fs (pre @ (h, []) # post) = delete_duplicates fs (pre @ post) \<and>
   (\<exists>st. delete_duplicates fs (pre @ (h, []) # post) = Inr st)"
  by (simp add: delete_duplicates_def delete_loop_fold group_step_def)

subsection \<open>What the loops do to the file system\<close>

lemma unlink_eq:
  "unlink fs p =
     (if can_unlink fs p then Some (fs\<lparr>files := (files fs)(name fs p := None)\<rparr>) else None)"
  by (simp add: unlink_def can_unlink_def split: option.splits)

lemma name_delete_paths: "name (dfs (delete_paths sz ps st)) = name (dfs st)"
  by (induction ps arbitrary: st) (simp_all add: unlink_eq)

lemma via_delete_paths: "via (dfs (delete_paths sz ps st)) = via (dfs st)"
  by (induction ps arbitrary: st) (simp_all add: unlink_eq)

lemma dirs_delete_paths: "dirs (dfs (delete_paths sz ps st)) = dirs (dfs st)"
  by (induction ps arbitrary: st) (simp_all add: unlink_eq)

lemma locked_delete_paths: "locked (dfs (delete_paths sz ps st)) = locked (dfs st)"
  by (induction ps arbitrary: st) (simp_all add: unlink_eq)




lemma shrunk_refl: "shrunk fs fs"
  by (simp add: shrunk_def)

lemma shrunk_trans:
  assumes "shrunk fs3 fs2" and "shrunk fs2 fs1"
  shows "shrunk fs3 fs1"
proof -
  have "files fs3 l = None \<or> files fs3 l = files fs1 l" for l
    using assms unfolding shrunk_def by metis
  moreover have "locked fs3 = locked fs1" and "name fs3 = name fs1" and "via fs3 = via fs1"
    using assms by (simp_all add: shrunk_def)
  ultimately show ?thesis by (simp add: shrunk_def)
qed

lemma shrunk_present:
  assumes "shrunk fs' fs" and "present fs' p"
  shows "present fs p"
proof -
  have "case files fs l of Some (DirLink d) \<Rightarrow> True | _ \<Rightarrow> False"
    if "case files fs' l of Some (DirLink d) \<Rightarrow> True | _ \<Rightarrow> False" for l
  proof -
    from assms(1) have "files fs' l = None \<or> files fs' l = files fs l"
      by (simp add: shrunk_def)
    with that show ?thesis by auto
  qed
  with assms show ?thesis
    by (auto simp: present_def shrunk_def list_all_iff)
qed

lemma shrunk_entry_of:
  assumes "shrunk fs' fs"
  shows "entry_of fs' p = None \<or> entry_of fs' p = entry_of fs p"
proof (cases "present fs' p")
  case False
  then show ?thesis by (simp add: entry_of_def)
next
  case True
  with assms have "present fs p" by (rule shrunk_present)
  moreover from assms
  have "files fs' (name fs p) = None \<or> files fs' (name fs p) = files fs (name fs p)"
    and "name fs' = name fs"
    by (simp_all add: shrunk_def)
  ultimately show ?thesis using True by (auto simp: entry_of_def)
qed


lemma shrunk_lookup:
  assumes "shrunk fs' fs"
  shows "lookup fs' p = None \<or> lookup fs' p = lookup fs p"
proof -
  have "\<forall>q. entry_of fs' q = None \<or> entry_of fs' q = entry_of fs q"
    using shrunk_entry_of [OF assms] by blast
  from resolve_shrunk [OF this, of max_symlinks p] show ?thesis
    by (simp add: lookup_def)
qed



lemma shrunk_unlinked: "shrunk (fs\<lparr>files := (files fs)(l := None)\<rparr>) fs"
  by (simp add: shrunk_def)

lemma shrunk_delete_paths: "shrunk (dfs (delete_paths sz ps st)) (dfs st)"
proof (induction ps arbitrary: st)
  case Nil
  then show ?case by (simp add: shrunk_refl)
next
  case (Cons q ps)
  show ?case
  proof (cases "can_unlink (dfs st) q")
    case True
    let ?next = "st\<lparr>dfs := (dfs st)\<lparr>files := (files (dfs st))(name (dfs st) q := None)\<rparr>,
                     deleted_count := deleted_count st + 1,
                     freed_space := freed_space st + int sz,
                     attempts := attempts st @ [(q, True)]\<rparr>"
    have "shrunk (dfs (delete_paths sz ps ?next)) (dfs ?next)"
      by (rule Cons.IH)
    moreover have "shrunk (dfs ?next) (dfs st)"
      by (simp add: shrunk_unlinked)
    ultimately have "shrunk (dfs (delete_paths sz ps ?next)) (dfs st)"
      by (rule shrunk_trans)
    with True show ?thesis by (simp add: unlink_eq)
  next
    case False
    with Cons.IH [of "st\<lparr>attempts := attempts st @ [(q, False)]\<rparr>"] show ?thesis
      by (simp add: unlink_eq)
  qed
qed


lemma shrunk_group_step: "shrunk (dfs (group_step ps st)) (dfs st)"
  by (simp add: group_step_def shrunk_refl shrunk_delete_paths split: list.splits option.splits)


lemma shrunk_fold:
  "shrunk (dfs (fold (\<lambda>(h, ps). group_step ps) dups st)) (dfs st)"
proof (induction dups arbitrary: st)
  case Nil
  then show ?case by (simp add: shrunk_refl)
next
  case (Cons g dups)
  obtain h ps where g: "g = (h, ps)" by (cases g)
  show ?case
    using Cons.IH [of "group_step ps st"] shrunk_group_step [of ps st]
    by (simp add: g) (rule shrunk_trans)
qed





subsection \<open>Which paths are attempted\<close>

lemma targets_Cons: "targets ((h, ps) # dups) = set (tl ps) \<union> targets dups"
  by (simp add: targets_def)

lemma targets_Nil: "targets [] = {}"
  by (simp add: targets_def)

lemma entry_of_cong:
  assumes "name fs' = name fs" and "via fs' = via fs"
    and "\<forall>l \<in> locs_of fs p. files fs' l = files fs l"
  shows "entry_of fs' p = entry_of fs p"
proof -
  have "present fs' p = present fs p"
    using assms by (auto simp: present_def locs_of_def list_all_iff)
  with assms show ?thesis by (simp add: entry_of_def locs_of_def)
qed

lemma stat_size_cong_chain:
  assumes "name fs' = name fs" and "via fs' = via fs"
    and "\<forall>l \<in> chain_locs fs p. files fs' l = files fs l"
  shows "stat_size fs' p = stat_size fs p"
proof -
  have "\<forall>q \<in> set (link_chain (entry_of fs) max_symlinks p). entry_of fs' q = entry_of fs q"
  proof
    fix q
    assume "q \<in> set (link_chain (entry_of fs) max_symlinks p)"
    with assms(3) have "\<forall>l \<in> locs_of fs q. files fs' l = files fs l"
      by (auto simp: chain_locs_def)
    with assms(1,2) show "entry_of fs' q = entry_of fs q"
      by (rule entry_of_cong)
  qed
  from resolve_cong_chain [OF this] show ?thesis
    by (simp add: stat_size_def lookup_def)
qed


lemma name_group_step: "name (dfs (group_step ps st)) = name (dfs st)"
  by (simp add: group_step_def name_delete_paths split: list.splits option.splits)

lemma name_fold: "name (dfs (fold (\<lambda>(h, ps). group_step ps) dups st)) = name (dfs st)"
  by (induction dups arbitrary: st) (auto simp: name_group_step)

lemma via_group_step: "via (dfs (group_step ps st)) = via (dfs st)"
  by (simp add: group_step_def via_delete_paths split: list.splits option.splits)

lemma via_fold: "via (dfs (fold (\<lambda>(h, ps). group_step ps) dups st)) = via (dfs st)"
  by (induction dups arbitrary: st) (auto simp: via_group_step)





lemmas delete_eval =
  delete_duplicates_def delete_group_def stat_size_def unlink_def lookup_eval




section \<open>Scan, delete, scan again\<close>

lemma dirs_group_step: "dirs (dfs (group_step ps st)) = dirs (dfs st)"
  by (simp add: group_step_def dirs_delete_paths split: list.splits option.splits)

lemma dirs_fold: "dirs (dfs (fold (\<lambda>(h, ps). group_step ps) dups st)) = dirs (dfs st)"
  by (induction dups arbitrary: st) (auto simp: dirs_group_step)

lemma filed_under_stat: "filed_under fs m p = Some h \<Longrightarrow> stat_size fs p \<noteq> None"
  by (auto simp: filed_under_def stat_size_def split: option.splits if_splits)

lemma filed_under_shrunk:
  assumes "shrunk fs' fs" and "filed_under fs' m p = Some h"
  shows "filed_under fs m p = Some h"
  using shrunk_lookup [OF assms(1), of p] assms(2)
  by (auto simp: filed_under_def)

text \<open>
  A path that a scan files denotes a file or a link to one, not a link to a directory;
  paths filed under different digests denote different entries; and every path on the
  chain of a filed path is filed under the same digest.
\<close>

lemma filed_entry:
  assumes "filed_under fs m p = Some h"
  shows "present fs p \<and> files fs (name fs p) \<noteq> None \<and>
         (\<forall>g. files fs (name fs p) \<noteq> Some (DirLink g))"
proof -
  from assms obtain f where f: "lookup fs p = Some f" and r: "readable f"
    by (auto simp: filed_under_def split: option.splits if_splits)
  from f have e: "entry_of fs p \<noteq> None"
    by (auto simp: lookup_def max_symlinks_def resolve_numeral split: option.splits)
  then have pr: "present fs p"
    by (auto simp: entry_of_def split: if_splits)
  with e have ex: "files fs (name fs p) \<noteq> None"
    by (simp add: entry_of_def)
  have "files fs (name fs p) \<noteq> Some (DirLink g)" for g
  proof
    assume "files fs (name fs p) = Some (DirLink g)"
    with pr have "lookup fs p = Some (g\<lparr>readable := False\<rparr>)"
      by (simp add: lookup_def max_symlinks_def resolve_numeral entry_of_def)
    with f r show False by auto
  qed
  with pr ex show ?thesis by blast
qed

lemma filed_same_entry:
  assumes "filed_under fs m p = Some h" and "filed_under fs m q = Some k"
    and "name fs p = name fs q"
  shows "h = k"
proof -
  from filed_entry [OF assms(1)] filed_entry [OF assms(2)] assms(3)
  have "entry_of fs p = entry_of fs q"
    by (simp add: entry_of_def)
  then have "lookup fs p = lookup fs q"
    unfolding lookup_def by (rule resolve_same_entry)
  with assms(1,2) show ?thesis
    by (simp add: filed_under_def)
qed

lemma filed_not_via:
  assumes "filed_under fs m p = Some h" and "filed_under fs m q = Some k"
  shows "name fs p \<notin> set (via fs q)"
proof
  assume "name fs p \<in> set (via fs q)"
  moreover from filed_entry [OF assms(2)] have "present fs q" by blast
  ultimately have "case files fs (name fs p) of Some (DirLink g) \<Rightarrow> True | _ \<Rightarrow> False"
    by (simp add: present_def list_all_iff)
  then obtain g where "files fs (name fs p) = Some (DirLink g)"
    by (auto split: option.splits entry.splits)
  with filed_entry [OF assms(1)] show False by blast
qed

lemma filed_chain:
  assumes "filed_under fs m p = Some h"
    and "q \<in> set (link_chain (entry_of fs) max_symlinks p)"
  shows "filed_under fs m q = Some h"
proof -
  from assms(1) obtain f where f: "lookup fs p = Some f"
    by (auto simp: filed_under_def split: option.splits)
  then have "resolve (entry_of fs) max_symlinks p = Some f"
    by (simp add: lookup_def)
  from this assms(2) have "resolve (entry_of fs) max_symlinks q = Some f"
    by (rule resolve_chain)
  with f assms(1) show ?thesis
    by (simp add: filed_under_def lookup_def)
qed

text \<open>
  The entries that \<open>stat\<close> needs for a path filed under one digest are not those of paths
  filed under other digests.
\<close>

lemma filed_chain_apart:
  assumes "filed_under fs m p = Some h"
    and "\<forall>q \<in> P. \<exists>k. filed_under fs m q = Some k \<and> k \<noteq> h"
  shows "chain_locs fs p \<inter> name fs ` P = {}"
proof -
  have False if c: "c \<in> set (link_chain (entry_of fs) max_symlinks p)"
    and q: "q \<in> P" and l: "name fs q \<in> locs_of fs c" for c q
  proof -
    from assms(1) c have fc: "filed_under fs m c = Some h"
      by (rule filed_chain)
    from assms(2) q obtain k where fq: "filed_under fs m q = Some k" and ne: "k \<noteq> h"
      by blast
    from l have "name fs q = name fs c \<or> name fs q \<in> set (via fs c)"
      by (simp add: locs_of_def)
    then show False
    proof
      assume "name fs q = name fs c"
      with fq fc have "k = h" by (rule filed_same_entry)
      with ne show False by simp
    next
      assume "name fs q \<in> set (via fs c)"
      with filed_not_via [OF fq fc] show False by simp
    qed
  qed
  then show ?thesis
    by (auto simp: chain_locs_def)
qed

text \<open>
  The inner loop over paths that a scan of \<open>fs0\<close> filed, each of which can be unlinked
  when it exists: all their entries go.
\<close>

lemma delete_paths_all_removed:
  assumes "files (dfs st) = (\<lambda>l. if l \<in> name fs0 ` P then None else files fs0 l)"
    and "name (dfs st) = name fs0" and "via (dfs st) = via fs0"
    and "locked (dfs st) = locked fs0"
    and "\<forall>p \<in> P \<union> set ps. \<exists>h. filed_under fs0 m p = Some h"
    and "\<forall>p \<in> set ps. entry_of fs0 p \<noteq> None \<longrightarrow> \<not> locked fs0 (name fs0 p)"
  shows "files (dfs (delete_paths sz ps st)) =
           (\<lambda>l. if l \<in> name fs0 ` (P \<union> set ps) then None else files fs0 l)"
  using assms
proof (induction ps arbitrary: st P)
  case Nil
  then show ?case by simp
next
  case (Cons q ps)
  from Cons.prems(5) obtain h where fq: "filed_under fs0 m q = Some h"
    by auto
  note eq = filed_entry [OF fq]
  have vq: "l \<notin> name fs0 ` P" if "l \<in> set (via fs0 q)" for l
  proof
    assume "l \<in> name fs0 ` P"
    then obtain p where p: "p \<in> P" and l: "l = name fs0 p" by auto
    from Cons.prems(5) p obtain k where "filed_under fs0 m p = Some k" by auto
    from filed_not_via [OF this fq] that l show False by simp
  qed
  have pres: "present (dfs st) q"
  proof -
    have "files (dfs st) l = files fs0 l" if "l \<in> set (via fs0 q)" for l
      using vq [OF that] by (simp add: Cons.prems(1))
    with eq show ?thesis
      by (simp add: present_def list_all_iff Cons.prems(3))
  qed
  have ent: "entry_of (dfs st) q =
        (if name fs0 q \<in> name fs0 ` P then None else files fs0 (name fs0 q))"
    using pres by (simp add: entry_of_def Cons.prems(1) Cons.prems(2))
  have free: "\<not> locked fs0 (name fs0 q)"
    using Cons.prems(6) eq by (simp add: entry_of_def)
  have can: "can_unlink (dfs st) q \<longleftrightarrow> name fs0 q \<notin> name fs0 ` P"
    using eq free by (simp add: can_unlink_def ent Cons.prems(2) Cons.prems(4))
  let ?next = "if can_unlink (dfs st) q
      then st\<lparr>dfs := (dfs st)\<lparr>files := (files (dfs st))(name (dfs st) q := None)\<rparr>,
              deleted_count := deleted_count st + 1,
              freed_space := freed_space st + int sz,
              attempts := attempts st @ [(q, True)]\<rparr>
      else st\<lparr>attempts := attempts st @ [(q, False)]\<rparr>"
  have step: "delete_paths sz (q # ps) st = delete_paths sz ps ?next"
    by (simp add: unlink_eq)
  have f1: "files (dfs ?next) = (\<lambda>l. if l \<in> name fs0 ` insert q P then None else files fs0 l)"
  proof (rule ext)
    fix l
    show "files (dfs ?next) l = (if l \<in> name fs0 ` insert q P then None else files fs0 l)"
      using can by (auto simp: Cons.prems(1) Cons.prems(2))
  qed
  have n1: "name (dfs ?next) = name fs0" and v1: "via (dfs ?next) = via fs0"
    and l1: "locked (dfs ?next) = locked fs0"
    by (simp_all add: Cons.prems(2) Cons.prems(3) Cons.prems(4))
  have a1: "\<forall>p \<in> insert q P \<union> set ps. \<exists>h. filed_under fs0 m p = Some h"
    using Cons.prems(5) by auto
  have u1: "\<forall>p \<in> set ps. entry_of fs0 p \<noteq> None \<longrightarrow> \<not> locked fs0 (name fs0 p)"
    using Cons.prems(6) by simp
  have "files (dfs (delete_paths sz ps ?next)) =
           (\<lambda>l. if l \<in> name fs0 ` (insert q P \<union> set ps) then None else files fs0 l)"
    by (rule Cons.IH [OF f1 n1 v1 l1 a1 u1])
  moreover have "insert q P \<union> set ps = P \<union> set (q # ps)"
    by auto
  ultimately show ?case
    unfolding step by simp
qed

text \<open>
  When the groups come from a scan of \<open>fs0\<close> and every listed duplicate can be unlinked,
  each first path can still be stat-ed when its group is reached (what was removed before
  was filed under another digest than the entries of its chain), and all duplicates go.
\<close>

lemma files_fold_all_removed:
  assumes "\<forall>(h, ps) \<in> set gs. ps \<noteq> [] \<and> (\<forall>p \<in> set ps. filed_under fs0 m p = Some h)"
    and "distinct (map fst gs)"
    and "files (dfs st) = (\<lambda>l. if l \<in> name fs0 ` P then None else files fs0 l)"
    and "\<forall>p \<in> P. \<exists>k. filed_under fs0 m p = Some k \<and> k \<notin> fst ` set gs"
    and "\<forall>p \<in> targets gs. entry_of fs0 p \<noteq> None \<longrightarrow> \<not> locked fs0 (name fs0 p)"
    and "name (dfs st) = name fs0" and "via (dfs st) = via fs0"
    and "locked (dfs st) = locked fs0"
  shows "files (dfs (fold (\<lambda>(h, ps). group_step ps) gs st)) =
           (\<lambda>l. if l \<in> name fs0 ` (P \<union> targets gs) then None else files fs0 l)"
  using assms
proof (induction gs arbitrary: st P)
  case Nil
  then show ?case by (simp add: targets_Nil)
next
  case (Cons x gs)
  obtain h ps where x: "x = (h, ps)" by (cases x)
  from Cons.prems(1) x obtain p0 others where ps: "ps = p0 # others"
    by (cases ps) auto
  from Cons.prems(1) have digest: "\<forall>p \<in> set ps. filed_under fs0 m p = Some h"
    by (simp add: x)
  then have p0: "filed_under fs0 m p0 = Some h"
    by (simp add: ps)
  have "\<forall>q \<in> P. \<exists>k. filed_under fs0 m q = Some k \<and> k \<noteq> h"
    using Cons.prems(4) by (force simp: x)
  with p0 have "chain_locs fs0 p0 \<inter> name fs0 ` P = {}"
    by (rule filed_chain_apart)
  then have "\<forall>l \<in> chain_locs fs0 p0. files (dfs st) l = files fs0 l"
    by (auto simp: Cons.prems(3))
  with Cons.prems(6) Cons.prems(7) have "stat_size (dfs st) p0 = stat_size fs0 p0"
    by (rule stat_size_cong_chain)
  with filed_under_stat [OF p0] obtain sz where sz: "stat_size (dfs st) p0 = Some sz"
    by auto
  let ?next = "group_step ps st"
  have next_eq: "?next = delete_paths sz others st"
    by (simp add: group_step_def ps sz)
  have all_filed: "\<forall>p \<in> P \<union> set others. \<exists>h. filed_under fs0 m p = Some h"
    using Cons.prems(4) digest by (auto simp: ps)
  have unl: "\<forall>p \<in> set others. entry_of fs0 p \<noteq> None \<longrightarrow> \<not> locked fs0 (name fs0 p)"
    using Cons.prems(5) by (simp add: x ps targets_Cons)
  have files_next:
    "files (dfs ?next) = (\<lambda>l. if l \<in> name fs0 ` (P \<union> set others) then None else files fs0 l)"
    unfolding next_eq
    by (rule delete_paths_all_removed
          [OF Cons.prems(3) Cons.prems(6) Cons.prems(7) Cons.prems(8) all_filed unl])
  have key: "\<forall>(h, ps) \<in> set gs. ps \<noteq> [] \<and> (\<forall>p \<in> set ps. filed_under fs0 m p = Some h)"
    using Cons.prems(1) by simp
  have dist: "distinct (map fst gs)" and fresh: "h \<notin> fst ` set gs"
    using Cons.prems(2) by (simp_all add: x)
  have removed: "\<forall>p \<in> P \<union> set others. \<exists>k. filed_under fs0 m p = Some k \<and> k \<notin> fst ` set gs"
  proof
    fix p
    assume "p \<in> P \<union> set others"
    then show "\<exists>k. filed_under fs0 m p = Some k \<and> k \<notin> fst ` set gs"
    proof
      assume "p \<in> P"
      with Cons.prems(4) show ?thesis by (force simp: x)
    next
      assume "p \<in> set others"
      with digest have "filed_under fs0 m p = Some h" by (simp add: ps)
      with fresh show ?thesis by blast
    qed
  qed
  have lock: "\<forall>p \<in> targets gs. entry_of fs0 p \<noteq> None \<longrightarrow> \<not> locked fs0 (name fs0 p)"
    using Cons.prems(5) by (simp add: x targets_Cons)
  have nm: "name (dfs ?next) = name fs0" and vi: "via (dfs ?next) = via fs0"
    and lk: "locked (dfs ?next) = locked fs0"
    by (simp_all add: next_eq name_delete_paths via_delete_paths locked_delete_paths
          Cons.prems(6) Cons.prems(7) Cons.prems(8))
  have "files (dfs (fold (\<lambda>(h, ps). group_step ps) gs ?next)) =
           (\<lambda>l. if l \<in> name fs0 ` ((P \<union> set others) \<union> targets gs) then None else files fs0 l)"
    by (rule Cons.IH [OF key dist files_next removed lock nm vi lk])
  moreover have "P \<union> targets (x # gs) = (P \<union> set others) \<union> targets gs"
    by (auto simp: x ps targets_Cons)
  ultimately show ?case
    by (simp add: x)
qed

text \<open>The walk of a file system from which entries other than links to directories have gone.\<close>

lemma entry_of_restrict:
  assumes "files fs' = (\<lambda>l. if l \<in> T then None else files fs l)"
    and "name fs' = name fs" and "via fs' = via fs"
    and "\<forall>l \<in> T. \<forall>g. files fs l \<noteq> Some (DirLink g)"
  shows "entry_of fs' p \<noteq> None \<longleftrightarrow> name fs p \<notin> T \<and> entry_of fs p \<noteq> None"
proof -
  have "(case files fs' l of Some (DirLink g) \<Rightarrow> True | _ \<Rightarrow> False) =
        (case files fs l of Some (DirLink g) \<Rightarrow> True | _ \<Rightarrow> False)" for l
    using assms(4) by (auto simp: assms(1) split: option.splits entry.splits)
  then have "present fs' p = present fs p"
    by (simp add: present_def assms(3))
  then show ?thesis
    by (simp add: entry_of_def assms(1) assms(2))
qed

lemma walk_tree_restrict:
  assumes "files fs' = (\<lambda>l. if l \<in> T then None else files fs l)"
    and "name fs' = name fs" and "via fs' = via fs"
    and "\<forall>l \<in> T. \<forall>g. files fs l \<noteq> Some (DirLink g)"
  shows "walk_tree fs' t = map (filter (\<lambda>p. name fs p \<notin> T)) (walk_tree fs t)"
proof (induction t)
  case (Dir listable fnames subs)
  have a: "filter (\<lambda>p. entry_of fs' p \<noteq> None) fnames =
           filter (\<lambda>p. name fs p \<notin> T) (filter (\<lambda>p. entry_of fs p \<noteq> None) fnames)"
    unfolding entry_of_restrict [OF assms] by (simp add: conj_commute)
  have "map (walk_tree fs') subs =
        map (\<lambda>s. map (filter (\<lambda>p. name fs p \<notin> T)) (walk_tree fs s)) subs"
    by (rule map_cong) (simp_all add: Dir.IH)
  then have b: "concat (map (walk_tree fs') subs) =
           map (filter (\<lambda>p. name fs p \<notin> T)) (concat (map (walk_tree fs) subs))"
    by (simp only: map_concat map_map comp_def)
  show ?case
    unfolding walk_tree.simps a b by simp
qed

lemma visited_restrict:
  assumes "files fs' = (\<lambda>l. if l \<in> T then None else files fs l)"
    and "name fs' = name fs" and "via fs' = via fs"
    and "\<forall>l \<in> T. \<forall>g. files fs l \<noteq> Some (DirLink g)"
    and "dirs fs' = dirs fs"
  shows "concat (visited fs' d r) = filter (\<lambda>p. name fs p \<notin> T) (concat (visited fs d r))"
proof -
  have "os_walk fs' d = map (filter (\<lambda>p. name fs p \<notin> T)) (os_walk fs d)"
    by (simp add: os_walk_def assms(5) walk_tree_restrict [OF assms(1-4)]
          split: option.splits)
  then have "visited fs' d r = map (filter (\<lambda>p. name fs p \<notin> T)) (visited fs d r)"
    by (simp add: visited_def take_map)
  then show ?thesis
    by (simp add: filter_concat)
qed

lemma length_filter_keeper:
  "\<forall>p \<in> set (tl ps). \<not> Q p \<Longrightarrow> length (filter Q ps) \<le> 1"
proof (cases ps)
  case Nil
  then show ?thesis by simp
next
  case (Cons x xs)
  assume "\<forall>p \<in> set (tl ps). \<not> Q p"
  with Cons have "filter Q xs = []"
    by (auto simp: filter_empty_conv)
  with Cons show ?thesis by simp
qed

lemma length_filter_mono:
  "\<forall>x \<in> set xs. P x \<longrightarrow> Q x \<Longrightarrow> length (filter P xs) \<le> length (filter Q xs)"
  by (induction xs) auto

lemma distinct_keys_find_duplicates:
  "distinct (map fst (fst (find_duplicates fs d r m cb)))"
  by (simp add: find_duplicates_def Let_def duplicates_scan distinct_fold_file_under
        distinct_map_filter)

lemma find_duplicates_locked:
  "find_duplicates fs_locked ''d'' True 1 False =
     ([(''02129bb861061d1a052c592e2dc6b383'', [''d/a.txt'', ''d/b.txt'', ''d/c.txt''])], [])"
  by (simp add: scan_eval fs_locked_def md5_hexdigest_X)

text \<open>
  C7, as stated (scan, delete, scan again gives an empty result whenever no file was
  added), fails when a deletion fails: of three identical files of which \<open>b.txt\<close> cannot
  be unlinked, the deletion removes only \<open>c.txt\<close>, and the second scan still reports the
  group of \<open>a.txt\<close> and \<open>b.txt\<close>.
\<close>

theorem rescan_after_failed_delete:
  "delete_duplicates fs_locked (fst (find_duplicates fs_locked ''d'' True 1 False)) =
     Inr \<lparr>dfs = fs_locked\<lparr>files := (files fs_locked)(''d/c.txt'' := None)\<rparr>,
          deleted_count = 1, freed_space = 1,
          attempts = [(''d/b.txt'', False), (''d/c.txt'', True)]\<rparr> \<and>
   fst (find_duplicates (fs_locked\<lparr>files := (files fs_locked)(''d/c.txt'' := None)\<rparr>)
          ''d'' True 1 False) =
     [(''02129bb861061d1a052c592e2dc6b383'', [''d/a.txt'', ''d/b.txt''])]"
  by (simp add: find_duplicates_locked delete_eval fs_locked_def scan_eval md5_hexdigest_X)

text \<open>
  C7, amended: if every path after index 0 of a group of the scan result can be unlinked
  (when it still exists), then deleting the duplicates of the result and scanning the
  directory again with the same parameters, nothing else having changed, yields the
  empty result.
\<close>

theorem rescan_after_delete_empty:
  assumes "\<forall>p \<in> targets (fst (find_duplicates fs d r m cb)).
             entry_of fs p \<noteq> None \<longrightarrow> \<not> locked fs (name fs p)"
  shows "\<exists>st. delete_duplicates fs (fst (find_duplicates fs d r m cb)) = Inr st \<and>
              fst (find_duplicates (dfs st) d r m cb) = []"
proof -
  let ?D = "fst (find_duplicates fs d r m cb)"
  let ?V = "concat (visited fs d r)"
  let ?T = "name fs ` targets ?D"
  let ?init = "\<lparr>dfs = fs, deleted_count = 0, freed_space = 0, attempts = []\<rparr>"
  let ?st = "fold (\<lambda>(h, ps). group_step ps) ?D ?init"
  have run: "delete_duplicates fs ?D = Inr ?st"
    by (simp add: delete_duplicates_def delete_loop_fold)
  have grp: "ps = filter (\<lambda>p. filed_under fs m p = Some h) ?V \<and> 1 < length ps"
    if "(h, ps) \<in> set ?D" for h ps
    using that unfolding find_duplicates_groups .
  have key: "\<forall>(h, ps) \<in> set ?D. ps \<noteq> [] \<and> (\<forall>p \<in> set ps. filed_under fs m p = Some h)"
  proof (clarify)
    fix h ps
    assume mem: "(h, ps) \<in> set ?D"
    from grp [OF mem] have "1 < length ps"
      and "ps = filter (\<lambda>p. filed_under fs m p = Some h) ?V" by blast+
    then show "ps \<noteq> [] \<and> (\<forall>p \<in> set ps. filed_under fs m p = Some h)"
      by auto
  qed
  have cur: "files (dfs ?init) = (\<lambda>l. if l \<in> name fs ` {} then None else files fs l)"
    and nm0: "name (dfs ?init) = name fs" and vi0: "via (dfs ?init) = via fs"
    and lk0: "locked (dfs ?init) = locked fs"
    by simp_all
  have none: "\<forall>p \<in> {}. \<exists>k. filed_under fs m p = Some k \<and> k \<notin> fst ` set ?D"
    by simp
  have files': "files (dfs ?st) = (\<lambda>l. if l \<in> ?T then None else files fs l)"
    using files_fold_all_removed
            [OF key distinct_keys_find_duplicates cur none assms nm0 vi0 lk0]
    by simp
  have dirs': "dirs (dfs ?st) = dirs fs"
    by (simp add: dirs_fold)
  have name': "name (dfs ?st) = name fs" and via': "via (dfs ?st) = via fs"
    by (simp_all add: name_fold via_fold)
  have less: "shrunk (dfs ?st) fs"
    using shrunk_fold [of ?D ?init] by simp
  have nolink: "\<forall>l \<in> ?T. \<forall>g. files fs l \<noteq> Some (DirLink g)"
  proof
    fix l
    assume "l \<in> ?T"
    then obtain h ps p where g: "(h, ps) \<in> set ?D" and t: "p \<in> set (tl ps)"
      and l: "l = name fs p"
      by (auto simp: targets_def)
    from t have "p \<in> set ps"
      by (cases ps) auto
    with key g have "filed_under fs m p = Some h"
      by auto
    from filed_entry [OF this] l show "\<forall>g. files fs l \<noteq> Some (DirLink g)"
      by simp
  qed
  have no_group: "(h, ps) \<notin> set (fst (find_duplicates (dfs ?st) d r m cb))" for h ps
  proof
    assume "(h, ps) \<in> set (fst (find_duplicates (dfs ?st) d r m cb))"
    then have ps: "ps = filter (\<lambda>p. filed_under (dfs ?st) m p = Some h)
                          (concat (visited (dfs ?st) d r))"
      and len: "1 < length ps"
      unfolding find_duplicates_groups by blast+
    let ?G = "filter (\<lambda>p. filed_under fs m p = Some h) ?V"
    let ?Q = "\<lambda>p. name fs p \<notin> ?T"
    have "ps = filter (\<lambda>p. ?Q p \<and> filed_under (dfs ?st) m p = Some h) ?V"
      unfolding ps visited_restrict [OF files' name' via' nolink dirs']
      by (auto simp: filter_filter intro: filter_cong)
    also have "length \<dots> \<le> length (filter (\<lambda>p. ?Q p \<and> filed_under fs m p = Some h) ?V)"
      by (rule length_filter_mono) (auto dest: filed_under_shrunk [OF less])
    also have "filter (\<lambda>p. ?Q p \<and> filed_under fs m p = Some h) ?V = filter ?Q ?G"
      by (simp add: filter_filter conj_commute)
    finally have le: "length ps \<le> length (filter ?Q ?G)" .
    have "length (filter ?Q ?G) \<le> 1"
    proof (cases "1 < length ?G")
      case True
      then have "(h, ?G) \<in> set ?D"
        by (simp add: find_duplicates_groups)
      then have "set (tl ?G) \<subseteq> targets ?D"
        by (auto simp: targets_def)
      then have "\<forall>p \<in> set (tl ?G). \<not> ?Q p"
        by auto
      then show ?thesis by (rule length_filter_keeper)
    next
      case False
      have "length (filter ?Q ?G) \<le> length ?G"
        by (rule length_filter_le)
      with False show ?thesis by simp
    qed
    with len le show False by simp
  qed
  have "fst (find_duplicates (dfs ?st) d r m cb) = []"
  proof (cases "fst (find_duplicates (dfs ?st) d r m cb)")
    case Nil
    then show ?thesis .
  next
    case (Cons x xs)
    obtain h ps where "x = (h, ps)" by (cases x)
    with Cons no_group [of h ps] show ?thesis by simp
  qed
  with run show ?thesis by blast
qed

theorem rescan_after_delete_empty_witness:
  "\<exists>st. delete_duplicates fs_xy (fst (find_duplicates fs_xy ''d'' True 1 False)) = Inr st \<and>
        fst (find_duplicates (dfs st) ''d'' True 1 False) = []"
proof -
  have h: "\<forall>p \<in> targets (fst (find_duplicates fs_xy ''d'' True 1 False)).
             entry_of fs_xy p \<noteq> None \<longrightarrow> \<not> locked fs_xy (name fs_xy p)"
    by (simp add: find_duplicates_xy targets_def fs_xy_def)
  show ?thesis by (rule rescan_after_delete_empty [OF h])
qed

end
